theory Spec2Isabelle
  imports Main "HOL-Library.Word"
begin

section \<open>Bytes, buffers and machine integers\<close>

text \<open>
  A \<^verbatim>\<open>const uint8_t *\<close> is modelled by the list of the bytes that start at the pointer
  (pointer arithmetic \<^verbatim>\<open>p + n\<close> is \<open>drop n p\<close>, \<^verbatim>\<open>p[i]\<close> is \<open>p ! i\<close>); the size that the
  source passes along with the pointer stays a separate argument. \<^verbatim>\<open>idx_t\<close> values are
  natural numbers, \<^verbatim>\<open>int32_t\<close> values are integers, and every conversion between the two is
  written out. The encoder, which writes through its pointers, works on a store of bytes
  at 64-bit addresses instead (see the section of the encoder).
\<close>

type_synonym byte = "8 word"

definition bytes_of :: "string \<Rightarrow> byte list" where
  "bytes_of s = map of_char s"

text \<open>\<^verbatim>\<open>(int32_t)x\<close> for an \<^verbatim>\<open>idx_t x\<close>: the low 32 bits, read as two's complement.\<close>

definition int32_of_idx :: "nat \<Rightarrow> int" where
  "int32_of_idx x =
     (let u = int x mod 4294967296 in if u < 2147483648 then u else u - 4294967296)"

text \<open>\<^verbatim>\<open>ReadInt32\<close> (bson_common.hpp): \<^verbatim>\<open>memcpy\<close> of four bytes into an \<^verbatim>\<open>int32_t\<close>, little-endian.\<close>

definition ReadInt32 :: "byte list \<Rightarrow> int" where
  "ReadInt32 data =
     (let u = uint (data ! 0) + 256 * uint (data ! 1) + 65536 * uint (data ! 2)
              + 16777216 * uint (data ! 3)
      in if u < 2147483648 then u else u - 4294967296)"

subsection \<open>Type tags\<close>

text \<open>
  \<^verbatim>\<open>enum class BSONType : uint8_t\<close>. The source obtains a tag by \<^verbatim>\<open>static_cast\<close> from a
  byte of the buffer, so a tag is any byte; the enumerators are names of bytes.
\<close>

type_synonym BSONType = byte

abbreviation DOUBLE :: BSONType where "DOUBLE \<equiv> 0x01"
abbreviation STRING :: BSONType where "STRING \<equiv> 0x02"
abbreviation DOCUMENT :: BSONType where "DOCUMENT \<equiv> 0x03"
abbreviation ARRAY :: BSONType where "ARRAY \<equiv> 0x04"
abbreviation BINARY :: BSONType where "BINARY \<equiv> 0x05"
abbreviation UNDEFINED :: BSONType where "UNDEFINED \<equiv> 0x06"
abbreviation OBJECT_ID :: BSONType where "OBJECT_ID \<equiv> 0x07"
abbreviation BOOLEAN :: BSONType where "BOOLEAN \<equiv> 0x08"
abbreviation DATE_TIME :: BSONType where "DATE_TIME \<equiv> 0x09"
abbreviation NULL_VALUE :: BSONType where "NULL_VALUE \<equiv> 0x0A"
abbreviation REGEX :: BSONType where "REGEX \<equiv> 0x0B"
abbreviation DB_POINTER :: BSONType where "DB_POINTER \<equiv> 0x0C"
abbreviation JAVASCRIPT :: BSONType where "JAVASCRIPT \<equiv> 0x0D"
abbreviation SYMBOL :: BSONType where "SYMBOL \<equiv> 0x0E"
abbreviation JAVASCRIPT_WITH_SCOPE :: BSONType where "JAVASCRIPT_WITH_SCOPE \<equiv> 0x0F"
abbreviation INT32 :: BSONType where "INT32 \<equiv> 0x10"
abbreviation TIMESTAMP :: BSONType where "TIMESTAMP \<equiv> 0x11"
abbreviation INT64 :: BSONType where "INT64 \<equiv> 0x12"
abbreviation DECIMAL128 :: BSONType where "DECIMAL128 \<equiv> 0x13"
abbreviation MIN_KEY :: BSONType where "MIN_KEY \<equiv> 0xFF"
abbreviation MAX_KEY :: BSONType where "MAX_KEY \<equiv> 0x7F"

text \<open>\<^verbatim>\<open>struct BSONElement\<close>: the two pointers are the byte lists starting at them.\<close>

record BSONElement =
  etype :: BSONType
  ekey :: "byte list"
  ekey_len :: nat
  evalue :: "byte list"
  evalue_len :: nat

text \<open>An element with every field zero, for the out-parameter of a lookup.\<close>

definition blank_element :: BSONElement where
  "blank_element = \<lparr>etype = 0x00, ekey = [], ekey_len = 0, evalue = [], evalue_len = 0\<rparr>"

section \<open>Value sizes (BSONCommon::GetValueSize)\<close>

text \<open>
  The loop \<^verbatim>\<open>while (pos < limit && data[pos] != 0x00) pos++\<close>, which the source uses for
  every NUL-terminated run; the result is the final \<^verbatim>\<open>pos\<close>.
\<close>

function scan_nul :: "byte list \<Rightarrow> nat \<Rightarrow> nat \<Rightarrow> nat" where
  "scan_nul data limit pos =
     (if pos < limit \<and> data ! pos \<noteq> 0 then scan_nul data limit (pos + 1) else pos)"
  by pat_completeness auto
termination
  by (relation "measure (\<lambda>(data, limit, pos). limit - pos)") auto

declare scan_nul.simps [simp del]

text \<open>The three length-prefixed string cases (STRING, JAVASCRIPT, SYMBOL) have one body.\<close>

definition string_like_size :: "byte list \<Rightarrow> nat \<Rightarrow> nat" where
  "string_like_size val remaining =
     (if remaining < 4 then 0
      else let str_len = ReadInt32 val in
        if str_len < 1 \<or> str_len > int32_of_idx remaining - 4 then 0
        else nat (4 + str_len))"

definition regex_size :: "byte list \<Rightarrow> nat \<Rightarrow> nat" where
  "regex_size val remaining =
     (let pos = scan_nul val remaining 0 in
      if pos \<ge> remaining then 0
      else let pos2 = scan_nul val remaining (pos + 1) in
        if pos2 \<ge> remaining then 0 else pos2 + 1)"

text \<open>
  The \<^verbatim>\<open>switch\<close> over the tag. \<^verbatim>\<open>(int32_t)remaining\<close> is the narrowing \<open>int32_of_idx\<close>; the
  differences \<^verbatim>\<open>(int32_t)remaining - k\<close> and the sums \<^verbatim>\<open>4 + str_len\<close> are taken in the
  integers (the guards keep the sums within \<^verbatim>\<open>int32_t\<close>; a difference leaves it only when
  \<^verbatim>\<open>remaining\<close> narrows to a value within 16 of the least \<^verbatim>\<open>int32_t\<close>).
\<close>

definition GetValueSize :: "BSONType \<Rightarrow> byte list \<Rightarrow> nat \<Rightarrow> nat" where
  "GetValueSize type val remaining =
     (if remaining < 1 then 0
      else if type = DOUBLE then 8
      else if type = STRING then string_like_size val remaining
      else if type = DOCUMENT \<or> type = ARRAY then
        (if remaining < 4 then 0
         else let doc_len = ReadInt32 val in
           if doc_len < 5 \<or> doc_len > int32_of_idx remaining then 0 else nat doc_len)
      else if type = BINARY then
        (if remaining < 5 then 0
         else let bin_len = ReadInt32 val in
           if bin_len < 0 \<or> bin_len > int32_of_idx remaining - 5 then 0
           else nat (5 + bin_len))
      else if type = UNDEFINED then 0
      else if type = OBJECT_ID then 12
      else if type = BOOLEAN then 1
      else if type = DATE_TIME then 8
      else if type = NULL_VALUE then 0
      else if type = REGEX then regex_size val remaining
      else if type = DB_POINTER then
        (if remaining < 4 then 0
         else let str_len = ReadInt32 val in
           if str_len < 1 \<or> str_len > int32_of_idx remaining - 16 then 0
           else nat (4 + str_len + 12))
      else if type = JAVASCRIPT then string_like_size val remaining
      else if type = SYMBOL then string_like_size val remaining
      else if type = JAVASCRIPT_WITH_SCOPE then
        (if remaining < 4 then 0
         else let total_len = ReadInt32 val in
           if total_len < 14 \<or> total_len > int32_of_idx remaining then 0
           else nat total_len)
      else if type = INT32 then 4
      else if type = TIMESTAMP then 8
      else if type = INT64 then 8
      else if type = DECIMAL128 then 16
      else if type = MIN_KEY \<or> type = MAX_KEY then 0
      else 0)"

section \<open>Document validation (BSONCommon::ValidateDocument)\<close>

lemma scan_nul_ge: "pos \<le> scan_nul data limit pos"
proof (induction data limit pos rule: scan_nul.induct)
  case (1 data limit pos)
  show ?case
  proof (cases "pos < limit \<and> data ! pos \<noteq> 0")
    case True
    with 1 have "pos + 1 \<le> scan_nul data limit (pos + 1)" by simp
    moreover from True have "scan_nul data limit pos = scan_nul data limit (pos + 1)"
      by (subst scan_nul.simps) auto
    ultimately show ?thesis by simp
  next
    case False
    then have "scan_nul data limit pos = pos"
      by (subst scan_nul.simps) auto
    then show ?thesis by simp
  qed
qed

text \<open>The element loop of ValidateDocument, from a position \<open>pos\<close>; \<open>doc_len\<close> is at least 5.\<close>

function validate_loop :: "byte list \<Rightarrow> nat \<Rightarrow> nat \<Rightarrow> nat \<Rightarrow> bool" where
  "validate_loop data dsize doc_len pos =
     (if pos < doc_len - 1 then
        (if pos \<ge> dsize then False
         else
           let type = data ! pos;
               pos2 = scan_nul data doc_len (pos + 1)
           in if pos2 \<ge> doc_len then False
              else
                let pos3 = pos2 + 1;
                    remaining = doc_len - pos3;
                    value_size = GetValueSize type (drop pos3 data) remaining
                in if value_size = 0 \<or> value_size > remaining then False
                   else validate_loop data dsize doc_len (pos3 + value_size))
      else pos = doc_len - 1)"
  by pat_completeness auto
termination
proof (relation "measure (\<lambda>(data, dsize, doc_len, pos). doc_len - pos)", goal_cases)
  case 1
  show ?case by simp
next
  case (2 data dsize doc_len pos type pos2 pos3 remaining value_size)
  have "pos + 1 \<le> pos2" using 2 scan_nul_ge [of "pos + 1" data doc_len] by simp
  with 2 show ?case by simp
qed

declare validate_loop.simps [simp del]

definition ValidateDocument :: "byte list \<Rightarrow> nat \<Rightarrow> bool" where
  "ValidateDocument data dsize =
     (if dsize < 5 then False
      else let doc_len = ReadInt32 data in
        if doc_len < 5 \<or> nat doc_len > dsize then False
        else if data ! (nat doc_len - 1) \<noteq> 0 then False
        else validate_loop data dsize (nat doc_len) 4)"

section \<open>Element lookup (BSONCommon::FindElement, GetArrayElement)\<close>

text \<open>
  \<^verbatim>\<open>result\<close> is an out-parameter that the loop writes field by field, also on the paths
  that return \<^verbatim>\<open>false\<close>; the model passes it in and returns it with the flag.
\<close>

function find_loop ::
  "byte list \<Rightarrow> nat \<Rightarrow> byte list \<Rightarrow> nat \<Rightarrow> BSONElement \<Rightarrow> bool \<times> BSONElement" where
  "find_loop doc_data doc_len key pos result =
     (if pos < doc_len - 1 then
        let result1 = result\<lparr>etype := doc_data ! pos\<rparr>;
            result2 = result1\<lparr>ekey := drop (pos + 1) doc_data\<rparr>;
            pos2 = scan_nul doc_data doc_len (pos + 1);
            elem_key_len = pos2 - (pos + 1)
        in if pos2 \<ge> doc_len then (False, result2)
           else
             let pos3 = pos2 + 1;
                 result3 = result2\<lparr>ekey_len := elem_key_len\<rparr>;
                 result4 = result3\<lparr>evalue := drop pos3 doc_data\<rparr>;
                 remaining = doc_len - pos3;
                 result5 = result4\<lparr>evalue_len :=
                             GetValueSize (etype result4) (evalue result4) remaining\<rparr>
             in if evalue_len result5 = 0 \<or> evalue_len result5 > remaining
                then (False, result5)
                else if elem_key_len = length key
                        \<and> take (length key) (ekey result5) = key
                then (True, result5)
                else find_loop doc_data doc_len key (pos3 + evalue_len result5) result5
      else (False, result))"
  by pat_completeness auto
termination
proof (relation "measure (\<lambda>(doc_data, doc_len, key, pos, result). doc_len - pos)", goal_cases)
  case 1
  show ?case by simp
next
  case (2 doc_data doc_len key pos result result1 result2 pos2)
  have "pos + 1 \<le> pos2" using 2 scan_nul_ge [of "pos + 1" doc_data doc_len] by simp
  with 2 show ?case by simp
qed

declare find_loop.simps [simp del]

text \<open>The key is a \<^verbatim>\<open>(const char *key, idx_t key_len)\<close> pair: the list of its bytes.\<close>

definition FindElement ::
  "byte list \<Rightarrow> nat \<Rightarrow> byte list \<Rightarrow> BSONElement \<Rightarrow> bool \<times> BSONElement" where
  "FindElement doc_data doc_size key result =
     (if doc_size < 5 then (False, result)
      else let doc_len = ReadInt32 doc_data in
        if doc_len < 5 \<or> nat doc_len > doc_size then (False, result)
        else find_loop doc_data (nat doc_len) key 4 result)"

text \<open>\<^verbatim>\<open>std::to_string\<close> of an \<^verbatim>\<open>idx_t\<close>: the decimal digits, most significant first.\<close>

fun to_string :: "nat \<Rightarrow> string" where
  "to_string n =
     (if n < 10 then [char_of (48 + n)]
      else to_string (n div 10) @ [char_of (48 + n mod 10)])"

declare to_string.simps [simp del]

definition GetArrayElement ::
  "byte list \<Rightarrow> nat \<Rightarrow> nat \<Rightarrow> BSONElement \<Rightarrow> bool \<times> BSONElement" where
  "GetArrayElement array_data array_size index result =
     FindElement array_data array_size (bytes_of (to_string index)) result"

section \<open>Path navigation (BSONCommon::TraversePath)\<close>

text \<open>
  \<^verbatim>\<open>struct PathSegment\<close>: the flag \<^verbatim>\<open>is_array_index\<close> with the union of a key and an index.
\<close>

datatype PathSegment = Key string | Index nat

text \<open>The two branches on \<^verbatim>\<open>segment.is_array_index\<close>: the lookup of one segment in the current
  container.\<close>

definition resolve_segment ::
  "byte list \<Rightarrow> nat \<Rightarrow> PathSegment \<Rightarrow> BSONElement \<Rightarrow> bool \<times> BSONElement" where
  "resolve_segment current_data current_size segment result =
     (case segment of
        Index index \<Rightarrow> GetArrayElement current_data current_size index result
      | Key key \<Rightarrow> FindElement current_data current_size (bytes_of key) result)"

text \<open>
  The range-for over \<^verbatim>\<open>segments\<close>, with the loop variables \<^verbatim>\<open>current_data\<close> and
  \<^verbatim>\<open>current_size\<close>; \<^verbatim>\<open>&segment != &segments.back()\<close> holds exactly when segments remain.
\<close>

fun traverse_loop ::
  "byte list \<Rightarrow> nat \<Rightarrow> PathSegment list \<Rightarrow> BSONElement \<Rightarrow> bool \<times> BSONElement" where
  "traverse_loop current_data current_size [] result = (True, result)"
| "traverse_loop current_data current_size (segment # rest) result =
     (let (found, result') = resolve_segment current_data current_size segment result
      in if \<not> found then (False, result')
         else if rest \<noteq> [] then
           (if etype result' \<noteq> DOCUMENT \<and> etype result' \<noteq> ARRAY then (False, result')
            else traverse_loop (evalue result') (evalue_len result') rest result')
         else traverse_loop current_data current_size rest result')"

definition TraversePath ::
  "byte list \<Rightarrow> nat \<Rightarrow> PathSegment list \<Rightarrow> BSONElement \<Rightarrow> bool \<times> BSONElement" where
  "TraversePath doc_data doc_size segments result =
     traverse_loop doc_data doc_size segments result"

section \<open>Path parsing (BSONCommon::ParsePath)\<close>

text \<open>One constructor for each exception the parser can leave with.\<close>

datatype path_error =
    MustStartWithDollar   \<comment> \<open>\<^verbatim>\<open>BSON path must start with '$'\<close>\<close>
  | EndsWithDot           \<comment> \<open>\<^verbatim>\<open>BSON path ends with '.'\<close>\<close>
  | EmptyKey              \<comment> \<open>\<^verbatim>\<open>Empty key in BSON path\<close>\<close>
  | UnclosedQuotedKey     \<comment> \<open>\<^verbatim>\<open>Unclosed quoted key in BSON path\<close>\<close>
  | EndsWithBracket       \<comment> \<open>\<^verbatim>\<open>BSON path ends with '['\<close>\<close>
  | InvalidArrayIndex     \<comment> \<open>\<^verbatim>\<open>Invalid array index in BSON path\<close>\<close>
  | UnexpectedCharacter   \<comment> \<open>\<^verbatim>\<open>Unexpected character in BSON path\<close>\<close>
  | StoullOutOfRange      \<comment> \<open>\<^verbatim>\<open>std::out_of_range\<close> of \<^verbatim>\<open>std::stoull\<close>\<close>

abbreviation dquote :: char where "dquote \<equiv> CHR 0x22"

text \<open>The inner loop that finds the end of a key, quoted or bare.\<close>

function key_end :: "string \<Rightarrow> bool \<Rightarrow> nat \<Rightarrow> nat" where
  "key_end path quoted pos =
     (if pos < length path then
        (if quoted then
           (if path ! pos = dquote then pos else key_end path quoted (pos + 1))
         else
           (if path ! pos = CHR ''.'' \<or> path ! pos = CHR ''['' then pos
            else key_end path quoted (pos + 1)))
      else pos)"
  by pat_completeness auto
termination
  by (relation "measure (\<lambda>(path, quoted, pos). length path - pos)") auto

declare key_end.simps [simp del]

definition is_digit :: "char \<Rightarrow> bool" where
  "is_digit c = (48 \<le> (of_char c :: nat) \<and> (of_char c :: nat) \<le> 57)"

function digits_end :: "string \<Rightarrow> nat \<Rightarrow> nat" where
  "digits_end path pos =
     (if pos < length path \<and> is_digit (path ! pos) then digits_end path (pos + 1) else pos)"
  by pat_completeness auto
termination
  by (relation "measure (\<lambda>(path, pos). length path - pos)") auto

declare digits_end.simps [simp del]

text \<open>
  \<^verbatim>\<open>std::stoull\<close> on a non-empty run of decimal digits: the value, or
  \<^verbatim>\<open>std::out_of_range\<close> when it does not fit 64 bits.
\<close>

definition stoull :: "string \<Rightarrow> path_error + nat" where
  "stoull index_str =
     (let v = foldl (\<lambda>acc c. 10 * acc + (of_char c - 48)) 0 index_str
      in if v \<ge> 18446744073709551616 then Inl StoullOutOfRange else Inr v)"

lemma key_end_ge: "pos \<le> key_end path quoted pos"
proof (induction path quoted pos rule: key_end.induct)
  case (1 path quoted pos)
  let ?stop = "if quoted then path ! pos = dquote
               else path ! pos = CHR ''.'' \<or> path ! pos = CHR ''[''"
  show ?case
  proof (cases "pos < length path \<and> \<not> ?stop")
    case True
    then have "pos + 1 \<le> key_end path quoted (pos + 1)"
      using 1 by (cases quoted) simp_all
    moreover from True have "key_end path quoted pos = key_end path quoted (pos + 1)"
      by (subst key_end.simps) (simp split: if_splits)
    ultimately show ?thesis by simp
  next
    case False
    then have "key_end path quoted pos = pos"
      by (subst key_end.simps) (simp split: if_splits)
    then show ?thesis by simp
  qed
qed

lemma digits_end_ge: "pos \<le> digits_end path pos"
proof (induction path pos rule: digits_end.induct)
  case (1 path pos)
  show ?case
  proof (cases "pos < length path \<and> is_digit (path ! pos)")
    case True
    with 1 have "pos + 1 \<le> digits_end path (pos + 1)" by simp
    moreover from True have "digits_end path pos = digits_end path (pos + 1)"
      by (subst digits_end.simps) simp
    ultimately show ?thesis by simp
  next
    case False
    then have "digits_end path pos = pos"
      by (subst digits_end.simps) auto
    then show ?thesis by simp
  qed
qed

text \<open>The \<^verbatim>\<open>while (pos < len)\<close> loop; \<open>segments\<close> is the vector the parser appends to.\<close>

function parse_loop ::
  "string \<Rightarrow> nat \<Rightarrow> PathSegment list \<Rightarrow> path_error + PathSegment list" where
  "parse_loop path pos segments =
     (if pos < length path then
        (if path ! pos = CHR ''.'' then
           (if pos + 1 \<ge> length path then Inl EndsWithDot
            else
              let quoted = (path ! (pos + 1) = dquote);
                  key_start = (if quoted then pos + 2 else pos + 1);
                  pos2 = key_end path quoted key_start
              in if pos2 = key_start then Inl EmptyKey
                 else
                   let segments' =
                         segments @ [Key (take (pos2 - key_start) (drop key_start path))]
                   in if quoted then
                        (if pos2 \<ge> length path \<or> path ! pos2 \<noteq> dquote
                         then Inl UnclosedQuotedKey
                         else parse_loop path (pos2 + 1) segments')
                      else parse_loop path pos2 segments')
         else if path ! pos = CHR ''['' then
           (if pos + 1 \<ge> length path then Inl EndsWithBracket
            else
              let index_start = pos + 1;
                  pos2 = digits_end path index_start
              in if pos2 = index_start \<or> pos2 \<ge> length path \<or> path ! pos2 \<noteq> CHR '']''
                 then Inl InvalidArrayIndex
                 else
                   (case stoull (take (pos2 - index_start) (drop index_start path)) of
                      Inl e \<Rightarrow> Inl e
                    | Inr index \<Rightarrow> parse_loop path (pos2 + 1) (segments @ [Index index])))
         else Inl UnexpectedCharacter)
      else Inr segments)"
  by pat_completeness auto
termination
proof (relation "measure (\<lambda>(path, pos, segments). length path - pos)", goal_cases)
  case 1
  show ?case by simp
next
  case (2 path pos segments quoted key_start pos2 segments')
  have "key_start \<le> pos2"
    unfolding \<open>pos2 = key_end path quoted key_start\<close> by (rule key_end_ge)
  moreover have "pos < key_start"
    unfolding \<open>key_start = (if quoted then pos + 2 else pos + 1)\<close> by simp
  moreover note \<open>pos < length path\<close>
  ultimately show ?case by simp
next
  case (3 path pos segments quoted key_start pos2 segments')
  have "key_start \<le> pos2"
    unfolding \<open>pos2 = key_end path quoted key_start\<close> by (rule key_end_ge)
  moreover have "pos < key_start"
    unfolding \<open>key_start = (if quoted then pos + 2 else pos + 1)\<close> by simp
  moreover note \<open>pos < length path\<close>
  ultimately show ?case by simp
next
  case (4 path pos segments index_start pos2 index)
  have "index_start \<le> pos2"
    unfolding \<open>pos2 = digits_end path index_start\<close> by (rule digits_end_ge)
  moreover note \<open>index_start = pos + 1\<close> \<open>pos < length path\<close>
  ultimately show ?case by simp
qed

declare parse_loop.simps [simp del]

definition ParsePath :: "string \<Rightarrow> PathSegment list \<Rightarrow> path_error + PathSegment list" where
  "ParsePath path segments =
     (if length path = 0 then Inr segments
      else if path ! 0 \<noteq> CHR ''$'' then Inl MustStartWithDollar
      else parse_loop path 1 segments)"

section \<open>Row functions built on the navigation\<close>

text \<open>
  The lambda of \<^verbatim>\<open>BSONExtractStringFunction\<close> for one row. The local \<^verbatim>\<open>BSONElement elem\<close>
  is declared without an initialiser; its indeterminate contents are the argument
  \<open>elem\<close>. The result is the exception of the path parser, NULL (\<open>None\<close>) or the string.
\<close>

definition BSONExtractStringFunction ::
  "byte list \<Rightarrow> nat \<Rightarrow> string \<Rightarrow> BSONElement \<Rightarrow> path_error + byte list option" where
  "BSONExtractStringFunction data dsize path elem =
     (case ParsePath path [] of
        Inl e \<Rightarrow> Inl e
      | Inr segments \<Rightarrow>
          let (found, elem') = TraversePath data dsize segments elem
          in if \<not> found then Inr None
             else if etype elem' \<noteq> STRING then Inr None
             else
               let str_len = ReadInt32 (evalue elem')
               in if str_len < 1 then Inr None
                  else Inr (Some (take (nat (str_len - 1)) (drop 4 (evalue elem')))))"

text \<open>The lambda of \<^verbatim>\<open>BSONExistsFunction\<close> for one row.\<close>

definition BSONExistsFunction ::
  "byte list \<Rightarrow> nat \<Rightarrow> string \<Rightarrow> BSONElement \<Rightarrow> path_error + bool" where
  "BSONExistsFunction data dsize path elem =
     (case ParsePath path [] of
        Inl e \<Rightarrow> Inl e
      | Inr segments \<Rightarrow>
          if segments = [] then Inr (ValidateDocument data dsize)
          else Inr (fst (TraversePath data dsize segments elem)))"

section \<open>The JSON tree given to the encoder\<close>

text \<open>
  Modelled from the spec: the JSON library (yyjson) whose values the encoder reads is not
  among the sources. Section 1 and section 3 of the specification give its tree: null,
  bool, number (real, signed integer, unsigned integer), string, ordered array, ordered
  mapping from string keys to nodes, in insertion order and with duplicate keys kept.
  A real number is carried as the 64 bits of its \<^verbatim>\<open>double\<close>, a signed integer as the 64 bits
  of its \<^verbatim>\<open>int64_t\<close>, an unsigned integer as its \<^verbatim>\<open>uint64_t\<close>. \<open>JRaw\<close> stands for a value
  of any other library type, which the \<^verbatim>\<open>switch\<close> of the encoder sends to \<^verbatim>\<open>default\<close>.
\<close>

datatype json =
    JNull
  | JBool bool
  | JReal "64 word"
  | JSint "64 word"
  | JUint "64 word"
  | JStr string
  | JArr "json list"
  | JObj "(string \<times> json) list"
  | JRaw string

text \<open>
  Modelled from the spec: the object iterator of the JSON library
  (\<^verbatim>\<open>yyjson_obj_iter_init\<close>, \<^verbatim>\<open>yyjson_obj_iter_next\<close>, \<^verbatim>\<open>yyjson_obj_iter_get_val\<close>), absent from
  the sources. On a mapping it yields the key and value pairs in the mapping's order
  (specification, section 4.6: fields in the node's iteration order). The encoder hands it
  array nodes as well; the iterator is an iterator of objects: on a value that is not an
  object the library initialises it empty, and the loop body does not run.
\<close>

definition yyjson_obj_iter :: "json \<Rightarrow> (string \<times> json) list" where
  "yyjson_obj_iter obj = (case obj of JObj members \<Rightarrow> members | _ \<Rightarrow> [])"

section \<open>Writers (bson_type.cpp)\<close>

text \<open>The four bytes of an \<^verbatim>\<open>int32_t\<close>, as \<^verbatim>\<open>memcpy\<close> lays them out (little-endian).\<close>

definition le32 :: "int \<Rightarrow> byte list" where
  "le32 v = [word_of_int (v mod 256), word_of_int (v div 256 mod 256),
             word_of_int (v div 65536 mod 256), word_of_int (v div 16777216 mod 256)]"

text \<open>The eight bytes of a 64-bit value (\<^verbatim>\<open>int64_t\<close>, or the bits of a \<^verbatim>\<open>double\<close>).\<close>

definition le64 :: "64 word \<Rightarrow> byte list" where
  "le64 w =
     (let v = uint w
      in [word_of_int (v mod 256), word_of_int (v div 256 mod 256),
          word_of_int (v div 65536 mod 256), word_of_int (v div 16777216 mod 256),
          word_of_int (v div 4294967296 mod 256), word_of_int (v div 1099511627776 mod 256),
          word_of_int (v div 281474976710656 mod 256),
          word_of_int (v div 72057594037927936 mod 256)])"

text \<open>
  \<^verbatim>\<open>ReadInt64\<close> and \<^verbatim>\<open>ReadDouble\<close> (bson_common.hpp): \<^verbatim>\<open>memcpy\<close> of eight bytes; the result
  is the 64-bit pattern.
\<close>

definition ReadInt64 :: "byte list \<Rightarrow> 64 word" where
  "ReadInt64 data =
     word_of_int (uint (data ! 0) + 256 * uint (data ! 1) + 65536 * uint (data ! 2)
       + 16777216 * uint (data ! 3) + 4294967296 * uint (data ! 4)
       + 1099511627776 * uint (data ! 5) + 281474976710656 * uint (data ! 6)
       + 72057594037927936 * uint (data ! 7))"

definition ReadDouble :: "byte list \<Rightarrow> 64 word" where
  "ReadDouble data = ReadInt64 data"

text \<open>
  The writers return the number of bytes written; in the model that number is the length
  of the list of bytes. \<^verbatim>\<open>int32_t bson_len = len + 1\<close> narrows an \<^verbatim>\<open>idx_t\<close>.
\<close>

definition WriteBSONString :: "string \<Rightarrow> byte list" where
  "WriteBSONString str = le32 (int32_of_idx (length str + 1)) @ bytes_of str @ [0x00]"

definition WriteBSONInt32 :: "int \<Rightarrow> byte list" where
  "WriteBSONInt32 v = le32 v"

definition WriteBSONInt64 :: "64 word \<Rightarrow> byte list" where
  "WriteBSONInt64 v = le64 v"

definition WriteBSONDouble :: "64 word \<Rightarrow> byte list" where
  "WriteBSONDouble v = le64 v"

definition WriteBSONBool :: "bool \<Rightarrow> byte list" where
  "WriteBSONBool v = [if v then 0x01 else 0x00]"

section \<open>The store that the encoder writes\<close>

text \<open>
  The encoder writes through \<^verbatim>\<open>uint8_t *\<close> pointers into a buffer that a nested call
  shares with its caller, it advances \<^verbatim>\<open>current\<close> by the length that a nested call
  returned, and it goes back to \<^verbatim>\<open>dest\<close> to write the length prefix last. The store
  maps every address to the byte held there; a pointer is a 64-bit address, and pointer
  arithmetic wraps around as the arithmetic of 64-bit words does.
\<close>

type_synonym memory = "64 word \<Rightarrow> byte"

text \<open>\<^verbatim>\<open>p + n\<close> for a pointer \<^verbatim>\<open>p\<close> and an \<^verbatim>\<open>idx_t n\<close>.\<close>

definition ptr_add :: "64 word \<Rightarrow> nat \<Rightarrow> 64 word" where
  "ptr_add p n = p + of_nat n"

text \<open>\<^verbatim>\<open>p - q\<close> for two pointers, as a 64-bit number.\<close>

definition ptr_diff :: "64 word \<Rightarrow> 64 word \<Rightarrow> nat" where
  "ptr_diff p q = unat (p - q)"

text \<open>
  \<^verbatim>\<open>memcpy(p, bs, n)\<close>, and \<^verbatim>\<open>*p = b\<close> for one byte: the bytes \<open>bs\<close> are laid down from the
  address \<open>p\<close> on.
\<close>

fun store :: "memory \<Rightarrow> 64 word \<Rightarrow> byte list \<Rightarrow> memory" where
  "store mem p [] = mem"
| "store mem p (b # bs) = store (mem(p := b)) (ptr_add p 1) bs"

text \<open>The \<open>n\<close> bytes that start at the address \<open>p\<close>.\<close>

fun load :: "memory \<Rightarrow> 64 word \<Rightarrow> nat \<Rightarrow> byte list" where
  "load mem p 0 = []"
| "load mem p (Suc n) = mem p # load mem (ptr_add p 1) n"

section \<open>The encoder (JSONToBSONDocument)\<close>

text \<open>
  The three messages of \<^verbatim>\<open>Buffer too small\<close> and the message of the \<^verbatim>\<open>default\<close> case.
\<close>

datatype encode_error =
    BufferTooSmallDocument
  | BufferTooSmallElement
  | BufferTooSmallTerminator
  | UnsupportedType

text \<open>\<^verbatim>\<open>remaining -= n\<close> on an \<^verbatim>\<open>idx_t\<close>: unsigned 64-bit subtraction, which wraps around.\<close>

definition idx_sub :: "nat \<Rightarrow> nat \<Rightarrow> nat" where
  "idx_sub remaining n =
     (remaining + 18446744073709551616 - n mod 18446744073709551616) mod 18446744073709551616"

text \<open>
  \<^verbatim>\<open>return doc_len\<close> converts the \<^verbatim>\<open>int32_t doc_len\<close> to the \<^verbatim>\<open>idx_t\<close> of the return type:
  a negative length becomes a number just below \<open>2^64\<close>.
\<close>

definition idx_of_int32 :: "int \<Rightarrow> nat" where
  "idx_of_int32 v = nat (v mod 18446744073709551616)"

text \<open>The test \<^verbatim>\<open>num >= INT32_MIN && num <= INT32_MAX\<close> on an \<^verbatim>\<open>int64_t\<close>.\<close>

definition fits_int32 :: "64 word \<Rightarrow> bool" where
  "fits_int32 num = (- 2147483648 \<le> sint num \<and> sint num \<le> 2147483647)"

text \<open>
  The start of every case of the \<^verbatim>\<open>switch\<close>: the tag byte, the key bytes, and a NUL.
\<close>

definition element_header :: "byte \<Rightarrow> string \<Rightarrow> byte list" where
  "element_header tag key = [tag] @ bytes_of key @ [0x00]"

text \<open>
  JSONToBSONDocument takes the node, the pointer \<^verbatim>\<open>dest\<close>, the capacity \<^verbatim>\<open>max_size\<close> and
  the store, and returns the store it leaves and the \<^verbatim>\<open>idx_t\<close> it returns, or the
  exception it throws. \<open>encode_fields\<close> is the \<^verbatim>\<open>while\<close> loop over the iterator, with the
  local variables \<^verbatim>\<open>current\<close> and \<^verbatim>\<open>remaining\<close>. The loop checks \<^verbatim>\<open>remaining\<close> against
  \<^verbatim>\<open>key_len + 3\<close> only and subtracts what each case writes; a nested call is given the
  \<^verbatim>\<open>remaining\<close> of before the tag and the key, and \<^verbatim>\<open>current\<close> and \<^verbatim>\<open>remaining\<close> then move
  by the number the call returned. After the loop the terminator is written, the length
  \<^verbatim>\<open>(int32_t)(current - dest)\<close> is copied to \<^verbatim>\<open>dest\<close>, and that \<^verbatim>\<open>int32_t\<close> is returned.
  The bytes that one case writes in a row (the tag, the key, the NUL and the value that a
  writer lays down at \<^verbatim>\<open>current\<close>) are one \<open>store\<close> of their concatenation, and \<^verbatim>\<open>current\<close>
  advances by their number.
\<close>

function JSONToBSONDocument ::
    "json \<Rightarrow> 64 word \<Rightarrow> nat \<Rightarrow> memory \<Rightarrow> encode_error + (memory \<times> nat)"
  and encode_fields ::
    "(string \<times> json) list \<Rightarrow> 64 word \<Rightarrow> nat \<Rightarrow> memory
       \<Rightarrow> encode_error + (memory \<times> 64 word \<times> nat)"
where
  "JSONToBSONDocument obj dest max_size mem =
     (if max_size < 5 then Inl BufferTooSmallDocument
      else
        (case encode_fields (yyjson_obj_iter obj) (ptr_add dest 4) (max_size - 4) mem of
           Inl e \<Rightarrow> Inl e
         | Inr (mem', current, remaining) \<Rightarrow>
             if remaining < 1 then Inl BufferTooSmallTerminator
             else
               let doc_len = int32_of_idx (ptr_diff (ptr_add current 1) dest)
               in Inr (store (store mem' current [0x00]) dest (le32 doc_len),
                       idx_of_int32 doc_len)))"
| "encode_fields [] current remaining mem = Inr (mem, current, remaining)"
| "encode_fields ((key, val) # rest) current remaining mem =
     (if remaining < length key + 3 then Inl BufferTooSmallElement
      else
        (case val of
           JNull \<Rightarrow>
             encode_fields rest (ptr_add current (length key + 2))
               (idx_sub remaining (length key + 2))
               (store mem current (element_header 0x0A key))
         | JBool b \<Rightarrow>
             encode_fields rest (ptr_add current (length key + 3))
               (idx_sub remaining (length key + 3))
               (store mem current (element_header 0x08 key @ WriteBSONBool b))
         | JReal r \<Rightarrow>
             encode_fields rest (ptr_add current (length key + 10))
               (idx_sub remaining (length key + 10))
               (store mem current (element_header 0x01 key @ WriteBSONDouble r))
         | JSint num \<Rightarrow>
             if fits_int32 num then
               encode_fields rest (ptr_add current (length key + 6))
                 (idx_sub remaining (length key + 6))
                 (store mem current (element_header 0x10 key @ WriteBSONInt32 (sint num)))
             else
               encode_fields rest (ptr_add current (length key + 10))
                 (idx_sub remaining (length key + 10))
                 (store mem current (element_header 0x12 key @ WriteBSONInt64 num))
         | JUint num \<Rightarrow>
             encode_fields rest (ptr_add current (length key + 10))
               (idx_sub remaining (length key + 10))
               (store mem current (element_header 0x12 key @ WriteBSONInt64 num))
         | JStr str \<Rightarrow>
             encode_fields rest (ptr_add current (length key + length str + 7))
               (idx_sub remaining (length key + length str + 7))
               (store mem current (element_header 0x02 key @ WriteBSONString str))
         | JArr elems \<Rightarrow>
             (case JSONToBSONDocument val (ptr_add current (length key + 2)) remaining
                     (store mem current (element_header 0x04 key)) of
                Inl e \<Rightarrow> Inl e
              | Inr (mem', written) \<Rightarrow>
                  encode_fields rest (ptr_add (ptr_add current (length key + 2)) written)
                    (idx_sub remaining (length key + written + 2)) mem')
         | JObj members \<Rightarrow>
             (case JSONToBSONDocument val (ptr_add current (length key + 2)) remaining
                     (store mem current (element_header 0x03 key)) of
                Inl e \<Rightarrow> Inl e
              | Inr (mem', written) \<Rightarrow>
                  encode_fields rest (ptr_add (ptr_add current (length key + 2)) written)
                    (idx_sub remaining (length key + written + 2)) mem')
         | JRaw raw \<Rightarrow> Inl UnsupportedType))"
  by pat_completeness auto
termination
  by (relation "measure (\<lambda>x. case x of
            Inl (obj, dest, max_size, mem) \<Rightarrow> 2 * size obj + 1
          | Inr (members, current, remaining, mem) \<Rightarrow>
              2 * size_list (size_prod (\<lambda>_. 0) size) members)")
     (auto simp: yyjson_obj_iter_def split: json.splits)

declare JSONToBSONDocument.simps [simp del]

section \<open>The cast from JSON text (CastJSONToBSON)\<close>

text \<open>
  The lambda of \<^verbatim>\<open>CastJSONToBSON\<close> for one row. The JSON parser is outside the sources:
  \<open>json_size\<close> is \<^verbatim>\<open>json_str.GetSize()\<close> (the length field of a \<^verbatim>\<open>string_t\<close> has 32 bits, so
  \<^verbatim>\<open>json_str.GetSize() * 2 + 1024\<close> does not wrap around) and \<open>doc\<close> is what \<^verbatim>\<open>yyjson_read\<close>
  returned for the text (\<open>None\<close> for a null pointer, else the root). \<open>bson_data\<close> is the address of the
  buffer that \<^verbatim>\<open>new uint8_t[bson_size]\<close> returned and \<open>mem\<close> the store at that moment. The
  row is either an error (the row is set invalid and an empty \<^verbatim>\<open>string_t\<close> returned) or
  the \<^verbatim>\<open>written\<close> bytes that start at \<^verbatim>\<open>bson_data\<close>, which \<^verbatim>\<open>AddStringOrBlob\<close> copies.
\<close>

datatype cast_error =
    InvalidJSON
  | RootNotObjectOrArray
  | FailedToConvert encode_error

definition yyjson_is_obj :: "json \<Rightarrow> bool" where
  "yyjson_is_obj v = (case v of JObj members \<Rightarrow> True | _ \<Rightarrow> False)"

definition yyjson_is_arr :: "json \<Rightarrow> bool" where
  "yyjson_is_arr v = (case v of JArr elems \<Rightarrow> True | _ \<Rightarrow> False)"

definition CastJSONToBSON ::
    "nat \<Rightarrow> json option \<Rightarrow> 64 word \<Rightarrow> memory \<Rightarrow> cast_error + byte list" where
  "CastJSONToBSON json_size doc bson_data mem =
     (case doc of
        None \<Rightarrow> Inl InvalidJSON
      | Some root \<Rightarrow>
          if \<not> yyjson_is_obj root \<and> \<not> yyjson_is_arr root
          then Inl RootNotObjectOrArray
          else
            let bson_size = json_size * 2 + 1024
            in (case JSONToBSONDocument root bson_data bson_size mem of
                  Inl e \<Rightarrow> Inl (FailedToConvert e)
                | Inr (mem', written) \<Rightarrow> Inr (load mem' bson_data written)))"

section \<open>Literal documents\<close>

text \<open>The empty document, and the same five bytes with a declared length of 4.\<close>

definition doc_empty :: "byte list" where
  "doc_empty = [0x05, 0x00, 0x00, 0x00, 0x00]"

definition doc_short_length :: "byte list" where
  "doc_short_length = [0x04, 0x00, 0x00, 0x00, 0x00]"

text \<open>The 20 bytes of \<^verbatim>\<open>{"name": "John"}\<close>.\<close>

definition doc_john :: "byte list" where
  "doc_john = [0x14, 0x00, 0x00, 0x00, 0x02, 0x6e, 0x61, 0x6d, 0x65, 0x00,
               0x05, 0x00, 0x00, 0x00, 0x4a, 0x6f, 0x68, 0x6e, 0x00, 0x00]"

text \<open>The same 20 bytes with the final byte (offset 19, the terminator) set to 1.\<close>

definition doc_john_bad_terminator :: "byte list" where
  "doc_john_bad_terminator =
     [0x14, 0x00, 0x00, 0x00, 0x02, 0x6e, 0x61, 0x6d, 0x65, 0x00,
      0x05, 0x00, 0x00, 0x00, 0x4a, 0x6f, 0x68, 0x6e, 0x00, 0x01]"

text \<open>
  A 16-byte document with one field \<^verbatim>\<open>a\<close> of type document whose 8-byte value (offset 7)
  declares length 8 and is otherwise garbage: no NUL ends its first key and its last
  byte is not 0.
\<close>

definition doc_nested_garbage :: "byte list" where
  "doc_nested_garbage =
     [0x10, 0x00, 0x00, 0x00, 0x03, 0x61, 0x00,
      0x08, 0x00, 0x00, 0x00, 0xEE, 0xEE, 0xEE, 0x01,
      0x00]"

text \<open>The 8 bytes of \<^verbatim>\<open>{"a": null}\<close>: length 8, tag 0x0A, key \<^verbatim>\<open>a\<close>, no value, terminator.\<close>

definition doc_null_field :: "byte list" where
  "doc_null_field = [0x08, 0x00, 0x00, 0x00, 0x0A, 0x61, 0x00, 0x00]"

lemmas reader_defs =
  ValidateDocument_def FindElement_def GetArrayElement_def TraversePath_def
  resolve_segment_def
  ReadInt32_def int32_of_idx_def GetValueSize_def string_like_size_def regex_size_def
  validate_loop.simps find_loop.simps scan_nul.simps bytes_of_def

section \<open>The validator and the locator on literal documents\<close>

lemma ValidateDocument_short: "dsize < 5 \<Longrightarrow> \<not> ValidateDocument data dsize"
  by (simp add: ValidateDocument_def)

lemma FindElement_john_name:
  "FindElement doc_john 20 (bytes_of ''name'') result =
     (True, \<lparr>etype = STRING, ekey = drop 5 doc_john, ekey_len = 4,
             evalue = drop 10 doc_john, evalue_len = 9\<rparr>)"
  by (simp add: doc_john_def reader_defs)

lemma FindElement_john_missing:
  "fst (FindElement doc_john 20 (bytes_of ''missing'') result) = False"
  by (simp add: doc_john_def reader_defs)

text \<open>
  C8. Every buffer of fewer than 5 bytes is invalid; \<^verbatim>\<open>05 00 00 00 00\<close> is valid and
  \<^verbatim>\<open>04 00 00 00 00\<close> is not; the 20-byte document \<^verbatim>\<open>{"name": "John"}\<close> is valid,
  looking up the key \<^verbatim>\<open>name\<close> in it finds an element of type string whose value is the
  9 bytes at offset 10 and whose decoded string (as \<^verbatim>\<open>bson_extract_string\<close> decodes it
  for the path \<^verbatim>\<open>$.name\<close>) is \<^verbatim>\<open>John\<close>, and looking up \<^verbatim>\<open>missing\<close> fails.
\<close>

theorem validator_literal_vectors:
  "(\<forall>data dsize. dsize < 5 \<longrightarrow> \<not> ValidateDocument data dsize)
   \<and> ValidateDocument doc_empty 5
   \<and> \<not> ValidateDocument doc_short_length 5
   \<and> ValidateDocument doc_john 20
   \<and> fst (FindElement doc_john 20 (bytes_of ''name'') result)
   \<and> etype (snd (FindElement doc_john 20 (bytes_of ''name'') result)) = STRING
   \<and> evalue (snd (FindElement doc_john 20 (bytes_of ''name'') result)) = drop 10 doc_john
   \<and> evalue_len (snd (FindElement doc_john 20 (bytes_of ''name'') result)) = 9
   \<and> BSONExtractStringFunction doc_john 20 ''$.name'' result = Inr (Some (bytes_of ''John''))
   \<and> \<not> fst (FindElement doc_john 20 (bytes_of ''missing'') result)
   \<and> BSONExtractStringFunction doc_john 20 ''$.missing'' result = Inr None"
proof -
  have short: "\<forall>data dsize. dsize < 5 \<longrightarrow> \<not> ValidateDocument data dsize"
    by (simp add: ValidateDocument_short)
  have empty: "ValidateDocument doc_empty 5"
    by (simp add: doc_empty_def reader_defs)
  have four: "\<not> ValidateDocument doc_short_length 5"
    by (simp add: doc_short_length_def reader_defs)
  have john: "ValidateDocument doc_john 20"
    by (simp add: doc_john_def reader_defs)
  have p1: "ParsePath ''$.name'' [] = Inr [Key ''name'']"
    by (simp add: ParsePath_def parse_loop.simps key_end.simps)
  have p2: "ParsePath ''$.missing'' [] = Inr [Key ''missing'']"
    by (simp add: ParsePath_def parse_loop.simps key_end.simps)
  have x1: "BSONExtractStringFunction doc_john 20 ''$.name'' result
              = Inr (Some (bytes_of ''John''))"
    unfolding BSONExtractStringFunction_def p1
    by (simp add: TraversePath_def resolve_segment_def FindElement_john_name)
       (simp add: doc_john_def ReadInt32_def bytes_of_def)
  obtain r' where miss: "FindElement doc_john 20 (bytes_of ''missing'') result = (False, r')"
    using FindElement_john_missing [of result]
    by (cases "FindElement doc_john 20 (bytes_of ''missing'') result") auto
  have x2: "BSONExtractStringFunction doc_john 20 ''$.missing'' result = Inr None"
    unfolding BSONExtractStringFunction_def p2
    by (simp add: TraversePath_def resolve_segment_def miss)
  show ?thesis
    using short empty four john x1 x2 FindElement_john_missing [of result]
    by (simp add: FindElement_john_name)
qed

theorem validator_literal_vectors_witness:
  "(3::nat) < 5 \<and> \<not> ValidateDocument [0x05, 0x00, 0x00] 3"
  using validator_literal_vectors [of blank_element] by simp

section \<open>Nested containers are skipped, not validated\<close>

text \<open>
  C9. For a value of type document or array the size table reads the embedded length
  \<open>n\<close>, accepts it exactly when at least 4 bytes remain and \<open>5 \<le> n \<le> remaining\<close>, and
  returns \<open>n\<close>, which the validator then skips. The validator never looks inside: the
  16-byte document \<open>doc_nested_garbage\<close> is valid, its field \<^verbatim>\<open>a\<close> is a document-typed
  element whose value is the 8 bytes at offset 7, and those 8 bytes are not a valid
  document (their last byte is not 0 and their element list is garbage).
\<close>

theorem validate_skips_nested_documents:
  "GetValueSize DOCUMENT val remaining =
     (if 4 \<le> remaining \<and> 5 \<le> ReadInt32 val \<and> ReadInt32 val \<le> int32_of_idx remaining
      then nat (ReadInt32 val) else 0)
   \<and> GetValueSize ARRAY val remaining =
     (if 4 \<le> remaining \<and> 5 \<le> ReadInt32 val \<and> ReadInt32 val \<le> int32_of_idx remaining
      then nat (ReadInt32 val) else 0)
   \<and> ValidateDocument doc_nested_garbage 16
   \<and> FindElement doc_nested_garbage 16 (bytes_of ''a'') result =
       (True, \<lparr>etype = DOCUMENT, ekey = drop 5 doc_nested_garbage, ekey_len = 1,
               evalue = drop 7 doc_nested_garbage, evalue_len = 8\<rparr>)
   \<and> drop 7 doc_nested_garbage ! 7 \<noteq> 0
   \<and> \<not> ValidateDocument (drop 7 doc_nested_garbage) 8"
proof -
  have size_doc: "GetValueSize DOCUMENT val remaining =
     (if 4 \<le> remaining \<and> 5 \<le> ReadInt32 val \<and> ReadInt32 val \<le> int32_of_idx remaining
      then nat (ReadInt32 val) else 0)"
    by (auto simp: GetValueSize_def Let_def)
  have size_arr: "GetValueSize ARRAY val remaining =
     (if 4 \<le> remaining \<and> 5 \<le> ReadInt32 val \<and> ReadInt32 val \<le> int32_of_idx remaining
      then nat (ReadInt32 val) else 0)"
    by (auto simp: GetValueSize_def Let_def)
  have outer: "ValidateDocument doc_nested_garbage 16"
    by (simp add: doc_nested_garbage_def reader_defs)
  have found: "FindElement doc_nested_garbage 16 (bytes_of ''a'') result =
       (True, \<lparr>etype = DOCUMENT, ekey = drop 5 doc_nested_garbage, ekey_len = 1,
               evalue = drop 7 doc_nested_garbage, evalue_len = 8\<rparr>)"
    by (simp add: doc_nested_garbage_def reader_defs)
  have last_byte: "drop 7 doc_nested_garbage ! 7 \<noteq> 0"
    by (simp add: doc_nested_garbage_def)
  have inner: "\<not> ValidateDocument (drop 7 doc_nested_garbage) 8"
    by (simp add: doc_nested_garbage_def reader_defs)
  show ?thesis
    using size_doc size_arr outer found last_byte inner by blast
qed

section \<open>Values of size zero\<close>

text \<open>
  An element whose tag has size 0 in the table stops the validator: the loop returns
  false at the first such element it reaches.
\<close>

lemma validate_loop_zero_size:
  assumes "pos < doc_len - 1"
    and "\<And>val remaining. GetValueSize (data ! pos) val remaining = 0"
  shows "\<not> validate_loop data dsize doc_len pos"
  using assms by (subst validate_loop.simps) (simp add: Let_def)

lemma find_loop_zero_size:
  assumes "pos < doc_len - 1"
    and "\<And>val remaining. GetValueSize (data ! pos) val remaining = 0"
  shows "\<not> fst (find_loop data doc_len key pos result)"
  using assms by (subst find_loop.simps) (simp add: Let_def)

text \<open>
  C1 (the source does otherwise). The table returns 0 for null, undefined, min-key and
  max-key, the same number it returns for an unrecognised tag such as 0x55, and the
  validator and the locator read every 0 as the malformed signal: the well-formed
  8-byte document \<^verbatim>\<open>{"a": null}\<close> is rejected, and its field is not found.
\<close>

theorem null_valued_document_rejected:
  "GetValueSize NULL_VALUE val remaining = 0
   \<and> GetValueSize UNDEFINED val remaining = 0
   \<and> GetValueSize MIN_KEY val remaining = 0
   \<and> GetValueSize MAX_KEY val remaining = 0
   \<and> GetValueSize 0x55 val remaining = 0
   \<and> \<not> ValidateDocument doc_null_field 8
   \<and> \<not> fst (FindElement doc_null_field 8 (bytes_of ''a'') result)"
proof -
  have sizes: "GetValueSize NULL_VALUE val remaining = 0"
    "GetValueSize UNDEFINED val remaining = 0"
    "GetValueSize MIN_KEY val remaining = 0"
    "GetValueSize MAX_KEY val remaining = 0"
    "GetValueSize 0x55 val remaining = 0"
    by (simp_all add: GetValueSize_def)
  have invalid: "\<not> ValidateDocument doc_null_field 8"
    by (simp add: doc_null_field_def reader_defs)
  have not_found: "\<not> fst (FindElement doc_null_field 8 (bytes_of ''a'') result)"
    by (simp add: doc_null_field_def reader_defs)
  show ?thesis
    using sizes invalid not_found by blast
qed

section \<open>Navigation: order of the segments, and the empty path\<close>

lemma TraversePath_last:
  "TraversePath d n [segment] result =
     (if fst (resolve_segment d n segment result)
      then (True, snd (resolve_segment d n segment result))
      else (False, snd (resolve_segment d n segment result)))"
  by (cases "resolve_segment d n segment result") (simp add: TraversePath_def)

lemma TraversePath_first_fails:
  "\<not> fst (resolve_segment d n segment result)
   \<Longrightarrow> \<not> fst (TraversePath d n (segment # rest) result)"
  by (cases "resolve_segment d n segment result") (simp add: TraversePath_def)

lemma TraversePath_scalar_blocks:
  "rest \<noteq> [] \<Longrightarrow> resolve_segment d n segment result = (True, r)
   \<Longrightarrow> etype r \<noteq> DOCUMENT \<Longrightarrow> etype r \<noteq> ARRAY
   \<Longrightarrow> \<not> fst (TraversePath d n (segment # rest) result)"
  by (cases "resolve_segment d n segment result") (simp add: TraversePath_def)

lemma TraversePath_descends:
  "rest \<noteq> [] \<Longrightarrow> resolve_segment d n segment result = (True, r)
   \<Longrightarrow> etype r = DOCUMENT \<or> etype r = ARRAY
   \<Longrightarrow> TraversePath d n (segment # rest) result
       = TraversePath (evalue r) (evalue_len r) rest r"
  by (auto simp add: TraversePath_def)

text \<open>
  C6 (the source does otherwise on the empty path). With no segments the loop body never
  runs and TraversePath returns true without writing \<^verbatim>\<open>result\<close>; the caller then reads
  whatever \<^verbatim>\<open>result\<close> held before. \<^verbatim>\<open>bson_extract_string\<close> calls it so for the path
  \<^verbatim>\<open>$\<close>: what it returns is decided by the indeterminate contents \<open>elem\<close> of its local
  element, not by the document.
\<close>

theorem TraversePath_empty_path_succeeds:
  "TraversePath doc_data doc_size [] result = (True, result)
   \<and> ParsePath ''$'' [] = Inr []
   \<and> BSONExtractStringFunction doc_data doc_size ''$'' elem =
       (if etype elem \<noteq> STRING then Inr None
        else if ReadInt32 (evalue elem) < 1 then Inr None
        else Inr (Some (take (nat (ReadInt32 (evalue elem) - 1)) (drop 4 (evalue elem)))))"
proof -
  have t: "TraversePath doc_data doc_size [] result = (True, result)" for result
    by (simp add: TraversePath_def)
  have p: "ParsePath ''$'' [] = Inr []"
    by (simp add: ParsePath_def parse_loop.simps)
  show ?thesis
    by (simp add: BSONExtractStringFunction_def p t Let_def)
qed

section \<open>The leading dollar sign\<close>

text \<open>
  The claim C7 as stated fails at the empty string: ParsePath returns at once, with no
  exception and no segment, when the length is 0.
\<close>

theorem ParsePath_empty_string_accepted: "ParsePath [] [] = Inr []"
  by (simp add: ParsePath_def)

text \<open>
  C7, amended. Every non-empty path string whose first character is not \<^verbatim>\<open>$\<close> raises
  the error \<^verbatim>\<open>BSON path must start with '$'\<close>; the empty string is accepted and adds no
  segment; the string \<^verbatim>\<open>$\<close> parses to the empty segment list.
\<close>

theorem ParsePath_leading_dollar:
  "(path \<noteq> [] \<and> path ! 0 \<noteq> CHR ''$'' \<longrightarrow> ParsePath path segments = Inl MustStartWithDollar)
   \<and> ParsePath [] segments = Inr segments
   \<and> ParsePath ''$'' [] = Inr []"
  by (simp add: ParsePath_def parse_loop.simps)

theorem ParsePath_leading_dollar_witness:
  "''a.b'' \<noteq> [] \<and> ''a.b'' ! 0 \<noteq> CHR ''$'' \<and> ParsePath ''a.b'' [] = Inl MustStartWithDollar"
  using ParsePath_leading_dollar [of "''a.b''" "[]"] by simp

text \<open>The other paths the specification lists as examples.\<close>

lemma ParsePath_examples:
  "ParsePath ''$.'' [] = Inl EndsWithDot"
  "ParsePath ''$.a['' [] = Inl EndsWithBracket"
  "ParsePath [CHR ''$'', CHR ''.'', dquote, CHR ''a'', CHR ''.'', CHR ''b'', dquote] []
     = Inr [Key ''a.b'']"
  "ParsePath ''$.a[0]'' [] = Inr [Key ''a'', Index 0]"
  "ParsePath ''$x'' [] = Inl UnexpectedCharacter"
  "ParsePath ''$[x]'' [] = Inl InvalidArrayIndex"
  "ParsePath [CHR ''$'', CHR ''.'', dquote, CHR ''a''] [] = Inl UnclosedQuotedKey"
  "ParsePath ''$..'' [] = Inl EmptyKey"
  by (simp_all add: ParsePath_def parse_loop.simps key_end.simps digits_end.simps
      is_digit_def stoull_def)

section \<open>What the encoder writes\<close>

text \<open>
  The encoding of a node: the bytes that the cases of the loop write one after the other,
  with the length prefix before them and the terminator after them, and without the
  pointers and the buffer accounting. These two functions are used to state and prove
  properties of the encoder; \<open>encode_exact\<close> shows that the encoder lays these bytes down
  from \<^verbatim>\<open>dest\<close> on whenever they fit the capacity and are fewer than \<open>2^31\<close>.
\<close>

function doc_bytes :: "json \<Rightarrow> byte list"
  and fields_bytes :: "(string \<times> json) list \<Rightarrow> byte list"
where
  "doc_bytes obj =
     (let body = fields_bytes (yyjson_obj_iter obj)
      in le32 (int (4 + length body + 1)) @ body @ [0x00])"
| "fields_bytes [] = []"
| "fields_bytes ((key, val) # rest) =
     (case val of
        JNull \<Rightarrow> element_header 0x0A key
      | JBool b \<Rightarrow> element_header 0x08 key @ WriteBSONBool b
      | JReal r \<Rightarrow> element_header 0x01 key @ WriteBSONDouble r
      | JSint num \<Rightarrow>
          if fits_int32 num
          then element_header 0x10 key @ WriteBSONInt32 (sint num)
          else element_header 0x12 key @ WriteBSONInt64 num
      | JUint num \<Rightarrow> element_header 0x12 key @ WriteBSONInt64 num
      | JStr str \<Rightarrow> element_header 0x02 key @ WriteBSONString str
      | JArr elems \<Rightarrow> element_header 0x04 key @ doc_bytes val
      | JObj members \<Rightarrow> element_header 0x03 key @ doc_bytes val
      | JRaw raw \<Rightarrow> [])
     @ fields_bytes rest"
  by pat_completeness auto
termination
  by (relation "measure (\<lambda>x. case x of
            Inl obj \<Rightarrow> 2 * size obj + 1
          | Inr members \<Rightarrow> 2 * size_list (size_prod (\<lambda>_. 0) size) members)")
     (auto simp: yyjson_obj_iter_def split: json.splits)

declare doc_bytes.simps [simp del]

text \<open>
  A tree of supported node kinds: null, bool, number, string, array, object, at every
  level.
\<close>

fun supported :: "json \<Rightarrow> bool" where
  "supported (JArr elems) = list_all supported elems"
| "supported (JObj members) = list_all (\<lambda>m. supported (snd m)) members"
| "supported (JRaw raw) = False"
| "supported v = True"

lemma idx_sub_fits:
  assumes "n \<le> r" and "r < 18446744073709551616"
  shows "idx_sub r n = r - n"
proof -
  have e1: "n mod 18446744073709551616 = n"
    using assms by simp
  have e2: "r + 18446744073709551616 - n = (r - n) + 18446744073709551616"
    using assms by simp
  have e3: "r - n < 18446744073709551616"
    using assms by simp
  have "idx_sub r n = ((r - n) + 18446744073709551616) mod 18446744073709551616"
    unfolding idx_sub_def e1 e2 ..
  also have "\<dots> = (r - n) mod 18446744073709551616"
    by (rule mod_add_self2)
  also have "\<dots> = r - n"
    using e3 by (rule mod_less)
  finally show ?thesis .
qed

lemma length_le32 [simp]: "length (le32 v) = 4"
  by (simp add: le32_def)

lemma length_le64 [simp]: "length (le64 v) = 8"
  by (simp add: le64_def Let_def)

lemma length_element_header [simp]: "length (element_header t key) = length key + 2"
  by (simp add: element_header_def bytes_of_def)

lemma length_WriteBSONString [simp]: "length (WriteBSONString s) = length s + 5"
  by (simp add: WriteBSONString_def bytes_of_def)

lemma length_doc_bytes: "length (doc_bytes obj) = length (fields_bytes (yyjson_obj_iter obj)) + 5"
  by (simp add: doc_bytes.simps Let_def)



abbreviation members_supported :: "(string \<times> json) list \<Rightarrow> bool" where
  "members_supported members \<equiv> list_all (\<lambda>m. supported (snd m)) members"

lemma length_element_ge:
  "members_supported ((key, val) # rest) \<Longrightarrow>
     length key + 2 \<le> length (fields_bytes ((key, val) # rest))"
  by (cases val) (auto simp: WriteBSONBool_def WriteBSONDouble_def WriteBSONInt32_def
      WriteBSONInt64_def)

subsection \<open>Stores and loads\<close>

lemma ptr_add_0 [simp]: "ptr_add p 0 = p"
  by (simp add: ptr_add_def)

lemma ptr_add_ptr_add [simp]: "ptr_add (ptr_add p a) b = ptr_add p (a + b)"
  by (simp add: ptr_add_def)

lemma ptr_add_neq:
  assumes "i < j" and "j < 18446744073709551616"
  shows "ptr_add p i \<noteq> ptr_add p j"
proof
  assume eq: "ptr_add p i = ptr_add p j"
  have j: "j = i + (j - i)" using assms(1) by simp
  have "ptr_add p j = ptr_add p i + of_nat (j - i)"
    by (subst j) (simp add: ptr_add_def)
  with eq have z: "(of_nat (j - i) :: 64 word) = 0" by simp
  have "(of_nat (j - i) :: 64 word) \<noteq> 0"
    using assms by (intro of_nat_neq_0) simp_all
  with z show False by simp
qed

lemma ptr_diff_ptr_add:
  "n < 18446744073709551616 \<Longrightarrow> ptr_diff (ptr_add p n) p = n"
  by (simp add: ptr_diff_def ptr_add_def unat_of_nat)

lemma store_append:
  "store mem p (a @ b) = store (store mem p a) (ptr_add p (length a)) b"
  by (induction a arbitrary: mem p) simp_all

lemma store_upd_commute:
  "(\<forall>i<length bs. ptr_add q i \<noteq> a)
   \<Longrightarrow> store (mem(a := v)) q bs = (store mem q bs)(a := v)"
proof (induction bs arbitrary: mem q)
  case Nil
  show ?case by simp
next
  case (Cons b bs)
  have q: "q \<noteq> a"
    using Cons.prems by force
  have rest: "\<forall>i<length bs. ptr_add (ptr_add q 1) i \<noteq> a"
  proof (intro allI impI)
    fix i assume "i < length bs"
    then have "ptr_add q (Suc i) \<noteq> a" using Cons.prems by force
    then show "ptr_add (ptr_add q 1) i \<noteq> a" by simp
  qed
  have "store (mem(a := v)) q (b # bs) = store ((mem(q := b))(a := v)) (ptr_add q 1) bs"
    using q by (simp add: fun_upd_twist)
  also have "\<dots> = (store (mem(q := b)) (ptr_add q 1) bs)(a := v)"
    using rest by (rule Cons.IH)
  finally show ?case by (simp only: store.simps)
qed

lemma store_commute:
  "(\<forall>i<length xs. \<forall>j<length ys. ptr_add q i \<noteq> ptr_add p j)
   \<Longrightarrow> store (store mem q xs) p ys = store (store mem p ys) q xs"
proof (induction ys arbitrary: mem p)
  case Nil
  show ?case by simp
next
  case (Cons y ys)
  have first: "\<forall>i<length xs. ptr_add q i \<noteq> p"
    using Cons.prems by force
  have rest: "\<forall>i<length xs. \<forall>j<length ys. ptr_add q i \<noteq> ptr_add (ptr_add p 1) j"
  proof (intro allI impI)
    fix i j assume "i < length xs" "j < length ys"
    then have "ptr_add q i \<noteq> ptr_add p (Suc j)" using Cons.prems by force
    then show "ptr_add q i \<noteq> ptr_add (ptr_add p 1) j" by simp
  qed
  have "store (store mem q xs) p (y # ys)
        = store ((store mem q xs)(p := y)) (ptr_add p 1) ys"
    by simp
  also have "\<dots> = store (store (mem(p := y)) q xs) (ptr_add p 1) ys"
    using store_upd_commute [OF first] by simp
  also have "\<dots> = store (store (mem(p := y)) (ptr_add p 1) ys) q xs"
    using rest by (rule Cons.IH)
  finally show ?case by simp
qed

lemma store_header:
  assumes "length hdr + length body \<le> 18446744073709551616"
  shows "store (store mem (ptr_add p (length hdr)) body) p hdr = store mem p (hdr @ body)"
proof -
  have "\<forall>i<length body. \<forall>j<length hdr. ptr_add (ptr_add p (length hdr)) i \<noteq> ptr_add p j"
  proof (intro allI impI)
    fix i j assume i: "i < length body" and j: "j < length hdr"
    have "ptr_add p j \<noteq> ptr_add p (length hdr + i)"
      using i j assms by (intro ptr_add_neq) simp_all
    then show "ptr_add (ptr_add p (length hdr)) i \<noteq> ptr_add p j"
      by simp
  qed
  then have "store (store mem (ptr_add p (length hdr)) body) p hdr
             = store (store mem p hdr) (ptr_add p (length hdr)) body"
    by (rule store_commute)
  then show ?thesis
    by (simp add: store_append)
qed

lemma store_other:
  "(\<forall>i<length bs. ptr_add q i \<noteq> a) \<Longrightarrow> store mem q bs a = mem a"
proof -
  assume d: "\<forall>i<length bs. ptr_add q i \<noteq> a"
  have "store (mem(a := mem a)) q bs = (store mem q bs)(a := mem a)"
    using d by (rule store_upd_commute)
  then have "store mem q bs = (store mem q bs)(a := mem a)"
    by simp
  then have "store mem q bs a = ((store mem q bs)(a := mem a)) a"
    by simp
  then show ?thesis by simp
qed

lemma load_store:
  "length bs \<le> 18446744073709551616 \<Longrightarrow> load (store mem p bs) p (length bs) = bs"
proof (induction bs arbitrary: mem p)
  case Nil
  show ?case by simp
next
  case (Cons b bs)
  have "\<forall>i<length bs. ptr_add (ptr_add p 1) i \<noteq> p"
  proof (intro allI impI)
    fix i assume "i < length bs"
    then have "ptr_add p 0 \<noteq> ptr_add p (Suc i)"
      using Cons.prems by (intro ptr_add_neq) simp_all
    then show "ptr_add (ptr_add p 1) i \<noteq> p" by simp
  qed
  then have first: "store (mem(p := b)) (ptr_add p 1) bs p = b"
    by (simp add: store_other)
  have rest: "load (store (mem(p := b)) (ptr_add p 1) bs) (ptr_add p 1) (length bs) = bs"
    using Cons.prems by (intro Cons.IH) simp
  show ?case
    using first rest by simp
qed

subsection \<open>The encoder writes the encoding\<close>

lemma int32_of_idx_small: "n < 2147483648 \<Longrightarrow> int32_of_idx n = int n"
  by (simp add: int32_of_idx_def Let_def)

lemma idx_of_int32_nat: "n < 18446744073709551616 \<Longrightarrow> idx_of_int32 (int n) = n"
  by (simp add: idx_of_int32_def)

lemma length_WriteBSONBool [simp]: "length (WriteBSONBool b) = 1"
  by (simp add: WriteBSONBool_def)

lemma length_WriteBSONInt32 [simp]: "length (WriteBSONInt32 v) = 4"
  by (simp add: WriteBSONInt32_def)

lemma length_WriteBSONInt64 [simp]: "length (WriteBSONInt64 v) = 8"
  by (simp add: WriteBSONInt64_def)

lemma length_WriteBSONDouble [simp]: "length (WriteBSONDouble v) = 8"
  by (simp add: WriteBSONDouble_def)

lemma encode_step:
  assumes unfold: "encode_fields ms current remaining mem = encode_fields rest p' r' mem'"
    and p': "p' = ptr_add current (length e)"
    and r': "r' = remaining - length e"
    and mem': "mem' = store mem current e"
    and ih: "length (fields_bytes rest) + 1 \<le> r' \<longrightarrow> r' < 18446744073709551616
      \<longrightarrow> length (fields_bytes rest) + 5 < 2147483648
      \<longrightarrow> encode_fields rest p' r' mem'
          = Inr (store mem' p' (fields_bytes rest), ptr_add p' (length (fields_bytes rest)),
                 r' - length (fields_bytes rest))"
    and fb: "fields_bytes ms = e @ fields_bytes rest"
    and fit: "length (fields_bytes ms) + 1 \<le> remaining"
    and m64: "remaining < 18446744073709551616"
    and small: "length (fields_bytes ms) + 5 < 2147483648"
  shows "encode_fields ms current remaining mem
         = Inr (store mem current (fields_bytes ms), ptr_add current (length (fields_bytes ms)),
                remaining - length (fields_bytes ms))"
proof -
  have a: "length (fields_bytes rest) + 1 \<le> r'"
    using fit fb r' by simp
  have b: "r' < 18446744073709551616"
    using m64 r' by simp
  have c: "length (fields_bytes rest) + 5 < 2147483648"
    using small fb by simp
  have "encode_fields rest p' r' mem'
          = Inr (store mem' p' (fields_bytes rest), ptr_add p' (length (fields_bytes rest)),
                 r' - length (fields_bytes rest))"
    using ih a b c by blast
  then show ?thesis
    unfolding unfold p' r' mem' fb by (simp add: store_append)
qed

text \<open>
  When the encoding fits the capacity and is shorter than \<open>2^31\<close> bytes, the encoder lays
  it down from \<^verbatim>\<open>dest\<close> on and returns its length.
\<close>

lemma encode_exact:
  "(members_supported (yyjson_obj_iter obj) \<longrightarrow> length (doc_bytes obj) \<le> max_size
      \<longrightarrow> max_size < 18446744073709551616 \<longrightarrow> length (doc_bytes obj) < 2147483648
      \<longrightarrow> JSONToBSONDocument obj dest max_size mem
            = Inr (store mem dest (doc_bytes obj), length (doc_bytes obj)))"
  "(members_supported members \<longrightarrow> length (fields_bytes members) + 1 \<le> remaining
      \<longrightarrow> remaining < 18446744073709551616 \<longrightarrow> length (fields_bytes members) + 5 < 2147483648
      \<longrightarrow> encode_fields members current remaining mem
            = Inr (store mem current (fields_bytes members),
                   ptr_add current (length (fields_bytes members)),
                   remaining - length (fields_bytes members)))"
proof (induction obj dest max_size mem and members current remaining mem
    rule: JSONToBSONDocument_encode_fields.induct)
  case (1 obj dest max_size mem)
  show ?case
  proof (intro impI)
    assume sup: "members_supported (yyjson_obj_iter obj)"
      and fit: "length (doc_bytes obj) \<le> max_size"
      and m64: "max_size < 18446744073709551616"
      and small: "length (doc_bytes obj) < 2147483648"
    let ?body = "fields_bytes (yyjson_obj_iter obj)"
    let ?n = "length ?body"
    have len: "length (doc_bytes obj) = ?n + 5"
      by (rule length_doc_bytes)
    have ge5: "\<not> max_size < 5" using fit len by simp
    have ef: "encode_fields (yyjson_obj_iter obj) (ptr_add dest 4) (max_size - 4) mem
            = Inr (store mem (ptr_add dest 4) ?body, ptr_add (ptr_add dest 4) ?n,
                   max_size - 4 - ?n)"
      using 1 [OF ge5] sup fit m64 small len by simp
    have left: "\<not> max_size - 4 - ?n < 1"
      using fit len by simp
    have diff: "ptr_diff (ptr_add (ptr_add (ptr_add dest 4) ?n) 1) dest = ?n + 5"
      using small len ptr_diff_ptr_add [of "?n + 5" dest] by (simp add: add.commute)
    have dl: "int32_of_idx (?n + 5) = int (?n + 5)"
      using small len by (intro int32_of_idx_small) simp
    have ret: "idx_of_int32 (int (?n + 5)) = ?n + 5"
      using small len by (intro idx_of_int32_nat) simp
    have body: "store (store mem (ptr_add dest 4) ?body) (ptr_add (ptr_add dest 4) ?n) [0x00]
                = store mem (ptr_add dest 4) (?body @ [0x00])"
      by (simp only: store_append)
    have hdr: "store (store mem (ptr_add dest (length (le32 (int (?n + 5))))) (?body @ [0x00]))
                 dest (le32 (int (?n + 5)))
               = store mem dest (le32 (int (?n + 5)) @ ?body @ [0x00])"
      using small len by (intro store_header) simp
    have bytes: "doc_bytes obj = le32 (int (?n + 5)) @ ?body @ [0x00]"
      by (simp add: doc_bytes.simps Let_def add.commute)
    have "JSONToBSONDocument obj dest max_size mem
          = Inr (store (store (store mem (ptr_add dest 4) ?body)
                          (ptr_add (ptr_add dest 4) ?n) [0x00])
                   dest (le32 (int (?n + 5))),
                 ?n + 5)"
      using ge5 left
      by (simp only: JSONToBSONDocument.simps(1) ef diff dl ret Let_def if_False
          sum.case prod.case)
    then show "JSONToBSONDocument obj dest max_size mem
          = Inr (store mem dest (doc_bytes obj), length (doc_bytes obj))"
      using hdr unfolding body len bytes by simp
  qed
next
  case (2 current remaining mem)
  show ?case by simp
next
  case (3 key val rest current remaining mem)
  show ?case
  proof (intro impI)
    assume sup: "members_supported ((key, val) # rest)"
      and fit: "length (fields_bytes ((key, val) # rest)) + 1 \<le> remaining"
      and m64: "remaining < 18446744073709551616"
      and small: "length (fields_bytes ((key, val) # rest)) + 5 < 2147483648"
    have room: "\<not> remaining < length key + 3"
      using length_element_ge [OF sup] fit by simp
    show "encode_fields ((key, val) # rest) current remaining mem
            = Inr (store mem current (fields_bytes ((key, val) # rest)),
                   ptr_add current (length (fields_bytes ((key, val) # rest))),
                   remaining - length (fields_bytes ((key, val) # rest)))"
    proof (cases val)
      case JNull
      let ?e = "element_header 0x0A key"
      have u: "encode_fields ((key, val) # rest) current remaining mem
               = encode_fields rest (ptr_add current (length key + 2)) (idx_sub remaining (length key + 2))
                   (store mem current ?e)"
        using room JNull by simp
      have fb: "fields_bytes ((key, val) # rest) = ?e @ fields_bytes rest"
        using JNull by simp
      have le: "length ?e = length key + 2"
        by simp
      have p: "ptr_add current (length key + 2) = ptr_add current (length ?e)"
        unfolding le by (rule refl)
      have r: "idx_sub remaining (length key + 2) = remaining - length ?e"
        using fit m64 fb by (simp add: idx_sub_fits)
      have ih: "length (fields_bytes rest) + 1 \<le> idx_sub remaining (length key + 2)
          \<longrightarrow> idx_sub remaining (length key + 2) < 18446744073709551616
          \<longrightarrow> length (fields_bytes rest) + 5 < 2147483648
          \<longrightarrow> encode_fields rest (ptr_add current (length key + 2)) (idx_sub remaining (length key + 2))
                (store mem current ?e)
              = Inr (store (store mem current ?e) (ptr_add current (length key + 2)) (fields_bytes rest),
                     ptr_add (ptr_add current (length key + 2)) (length (fields_bytes rest)),
                     idx_sub remaining (length key + 2) - length (fields_bytes rest))"
        using 3(1) [OF room JNull] sup by simp
      show ?thesis
        by (rule encode_step [OF u p r refl ih fb fit m64 small])
    next
      case (JBool b)
      let ?e = "element_header 0x08 key @ WriteBSONBool b"
      have u: "encode_fields ((key, val) # rest) current remaining mem
               = encode_fields rest (ptr_add current (length key + 3)) (idx_sub remaining (length key + 3))
                   (store mem current ?e)"
        using room JBool by simp
      have fb: "fields_bytes ((key, val) # rest) = ?e @ fields_bytes rest"
        using JBool by simp
      have le: "length ?e = length key + 3"
        by simp
      have p: "ptr_add current (length key + 3) = ptr_add current (length ?e)"
        unfolding le by (rule refl)
      have r: "idx_sub remaining (length key + 3) = remaining - length ?e"
        using fit m64 fb by (simp add: idx_sub_fits)
      have ih: "length (fields_bytes rest) + 1 \<le> idx_sub remaining (length key + 3)
          \<longrightarrow> idx_sub remaining (length key + 3) < 18446744073709551616
          \<longrightarrow> length (fields_bytes rest) + 5 < 2147483648
          \<longrightarrow> encode_fields rest (ptr_add current (length key + 3)) (idx_sub remaining (length key + 3))
                (store mem current ?e)
              = Inr (store (store mem current ?e) (ptr_add current (length key + 3)) (fields_bytes rest),
                     ptr_add (ptr_add current (length key + 3)) (length (fields_bytes rest)),
                     idx_sub remaining (length key + 3) - length (fields_bytes rest))"
        using 3(2) [OF room JBool] sup by simp
      show ?thesis
        by (rule encode_step [OF u p r refl ih fb fit m64 small])
    next
      case (JReal r)
      let ?e = "element_header 0x01 key @ WriteBSONDouble r"
      have u: "encode_fields ((key, val) # rest) current remaining mem
               = encode_fields rest (ptr_add current (length key + 10)) (idx_sub remaining (length key + 10))
                   (store mem current ?e)"
        using room JReal by simp
      have fb: "fields_bytes ((key, val) # rest) = ?e @ fields_bytes rest"
        using JReal by simp
      have le: "length ?e = length key + 10"
        by simp
      have p: "ptr_add current (length key + 10) = ptr_add current (length ?e)"
        unfolding le by (rule refl)
      have r: "idx_sub remaining (length key + 10) = remaining - length ?e"
        using fit m64 fb by (simp add: idx_sub_fits)
      have ih: "length (fields_bytes rest) + 1 \<le> idx_sub remaining (length key + 10)
          \<longrightarrow> idx_sub remaining (length key + 10) < 18446744073709551616
          \<longrightarrow> length (fields_bytes rest) + 5 < 2147483648
          \<longrightarrow> encode_fields rest (ptr_add current (length key + 10)) (idx_sub remaining (length key + 10))
                (store mem current ?e)
              = Inr (store (store mem current ?e) (ptr_add current (length key + 10)) (fields_bytes rest),
                     ptr_add (ptr_add current (length key + 10)) (length (fields_bytes rest)),
                     idx_sub remaining (length key + 10) - length (fields_bytes rest))"
        using 3(3) [OF room JReal] sup by simp
      show ?thesis
        by (rule encode_step [OF u p r refl ih fb fit m64 small])
    next
      case (JSint num)
      show ?thesis
      proof (cases "fits_int32 num")
        case True
        let ?e = "element_header 0x10 key @ WriteBSONInt32 (sint num)"
        have u: "encode_fields ((key, val) # rest) current remaining mem
                 = encode_fields rest (ptr_add current (length key + 6)) (idx_sub remaining (length key + 6))
                     (store mem current ?e)"
          using room JSint True by simp
        have fb: "fields_bytes ((key, val) # rest) = ?e @ fields_bytes rest"
          using JSint True by simp
        have le: "length ?e = length key + 6"
          by simp
        have p: "ptr_add current (length key + 6) = ptr_add current (length ?e)"
          unfolding le by (rule refl)
        have r: "idx_sub remaining (length key + 6) = remaining - length ?e"
          using fit m64 fb by (simp add: idx_sub_fits)
        have ih: "length (fields_bytes rest) + 1 \<le> idx_sub remaining (length key + 6)
            \<longrightarrow> idx_sub remaining (length key + 6) < 18446744073709551616
            \<longrightarrow> length (fields_bytes rest) + 5 < 2147483648
            \<longrightarrow> encode_fields rest (ptr_add current (length key + 6)) (idx_sub remaining (length key + 6))
                  (store mem current ?e)
                = Inr (store (store mem current ?e) (ptr_add current (length key + 6)) (fields_bytes rest),
                       ptr_add (ptr_add current (length key + 6)) (length (fields_bytes rest)),
                       idx_sub remaining (length key + 6) - length (fields_bytes rest))"
          using 3(4) [OF room JSint True] sup by simp
        show ?thesis
          by (rule encode_step [OF u p r refl ih fb fit m64 small])
      next
        case False
        let ?e = "element_header 0x12 key @ WriteBSONInt64 num"
        have u: "encode_fields ((key, val) # rest) current remaining mem
                 = encode_fields rest (ptr_add current (length key + 10)) (idx_sub remaining (length key + 10))
                     (store mem current ?e)"
          using room JSint False by simp
        have fb: "fields_bytes ((key, val) # rest) = ?e @ fields_bytes rest"
          using JSint False by simp
        have le: "length ?e = length key + 10"
          by simp
        have p: "ptr_add current (length key + 10) = ptr_add current (length ?e)"
          unfolding le by (rule refl)
        have r: "idx_sub remaining (length key + 10) = remaining - length ?e"
          using fit m64 fb by (simp add: idx_sub_fits)
        have ih: "length (fields_bytes rest) + 1 \<le> idx_sub remaining (length key + 10)
            \<longrightarrow> idx_sub remaining (length key + 10) < 18446744073709551616
            \<longrightarrow> length (fields_bytes rest) + 5 < 2147483648
            \<longrightarrow> encode_fields rest (ptr_add current (length key + 10)) (idx_sub remaining (length key + 10))
                  (store mem current ?e)
                = Inr (store (store mem current ?e) (ptr_add current (length key + 10)) (fields_bytes rest),
                       ptr_add (ptr_add current (length key + 10)) (length (fields_bytes rest)),
                       idx_sub remaining (length key + 10) - length (fields_bytes rest))"
          using 3(5) [OF room JSint False] sup by simp
        show ?thesis
          by (rule encode_step [OF u p r refl ih fb fit m64 small])
      qed
    next
      case (JUint num)
      let ?e = "element_header 0x12 key @ WriteBSONInt64 num"
      have u: "encode_fields ((key, val) # rest) current remaining mem
               = encode_fields rest (ptr_add current (length key + 10)) (idx_sub remaining (length key + 10))
                   (store mem current ?e)"
        using room JUint by simp
      have fb: "fields_bytes ((key, val) # rest) = ?e @ fields_bytes rest"
        using JUint by simp
      have le: "length ?e = length key + 10"
        by simp
      have p: "ptr_add current (length key + 10) = ptr_add current (length ?e)"
        unfolding le by (rule refl)
      have r: "idx_sub remaining (length key + 10) = remaining - length ?e"
        using fit m64 fb by (simp add: idx_sub_fits)
      have ih: "length (fields_bytes rest) + 1 \<le> idx_sub remaining (length key + 10)
          \<longrightarrow> idx_sub remaining (length key + 10) < 18446744073709551616
          \<longrightarrow> length (fields_bytes rest) + 5 < 2147483648
          \<longrightarrow> encode_fields rest (ptr_add current (length key + 10)) (idx_sub remaining (length key + 10))
                (store mem current ?e)
              = Inr (store (store mem current ?e) (ptr_add current (length key + 10)) (fields_bytes rest),
                     ptr_add (ptr_add current (length key + 10)) (length (fields_bytes rest)),
                     idx_sub remaining (length key + 10) - length (fields_bytes rest))"
        using 3(6) [OF room JUint] sup by simp
      show ?thesis
        by (rule encode_step [OF u p r refl ih fb fit m64 small])
    next
      case (JStr str)
      let ?e = "element_header 0x02 key @ WriteBSONString str"
      have u: "encode_fields ((key, val) # rest) current remaining mem
               = encode_fields rest (ptr_add current (length key + length str + 7)) (idx_sub remaining (length key + length str + 7))
                   (store mem current ?e)"
        using room JStr by simp
      have fb: "fields_bytes ((key, val) # rest) = ?e @ fields_bytes rest"
        using JStr by simp
      have le: "length ?e = length key + length str + 7"
        by simp
      have p: "ptr_add current (length key + length str + 7) = ptr_add current (length ?e)"
        unfolding le by (rule refl)
      have r: "idx_sub remaining (length key + length str + 7) = remaining - length ?e"
        using fit m64 fb by (simp add: idx_sub_fits)
      have ih: "length (fields_bytes rest) + 1 \<le> idx_sub remaining (length key + length str + 7)
          \<longrightarrow> idx_sub remaining (length key + length str + 7) < 18446744073709551616
          \<longrightarrow> length (fields_bytes rest) + 5 < 2147483648
          \<longrightarrow> encode_fields rest (ptr_add current (length key + length str + 7)) (idx_sub remaining (length key + length str + 7))
                (store mem current ?e)
              = Inr (store (store mem current ?e) (ptr_add current (length key + length str + 7)) (fields_bytes rest),
                     ptr_add (ptr_add current (length key + length str + 7)) (length (fields_bytes rest)),
                     idx_sub remaining (length key + length str + 7) - length (fields_bytes rest))"
        using 3(7) [OF room JStr] sup by simp
      show ?thesis
        by (rule encode_step [OF u p r refl ih fb fit m64 small])
    next
      case (JArr elems)
      let ?h = "element_header 0x04 key"
      let ?e = "?h @ doc_bytes val"
      have doc: "JSONToBSONDocument val (ptr_add current (length key + 2)) remaining
                   (store mem current ?h)
                 = Inr (store (store mem current ?h) (ptr_add current (length key + 2))
                          (doc_bytes val),
                        length (doc_bytes val))"
        using 3(8) [OF room JArr] JArr sup fit m64 small
        by (simp add: yyjson_obj_iter_def length_doc_bytes)
      have u: "encode_fields ((key, val) # rest) current remaining mem
               = encode_fields rest
                   (ptr_add (ptr_add current (length key + 2)) (length (doc_bytes val)))
                   (idx_sub remaining (length key + length (doc_bytes val) + 2))
                   (store (store mem current ?h) (ptr_add current (length key + 2))
                      (doc_bytes val))"
        using room JArr doc by simp
      have fb: "fields_bytes ((key, val) # rest) = ?e @ fields_bytes rest"
        using JArr by simp
      have le: "length ?e = length key + 2 + length (doc_bytes val)"
        by simp
      have p: "ptr_add (ptr_add current (length key + 2)) (length (doc_bytes val))
               = ptr_add current (length ?e)"
        unfolding le by (rule ptr_add_ptr_add)
      have r: "idx_sub remaining (length key + length (doc_bytes val) + 2)
               = remaining - length ?e"
        using fit m64 fb by (simp add: idx_sub_fits add.commute)
      have m: "store (store mem current ?h) (ptr_add current (length key + 2)) (doc_bytes val)
               = store mem current ?e"
        by (simp add: store_append)
      have ih: "length (fields_bytes rest) + 1
            \<le> idx_sub remaining (length key + length (doc_bytes val) + 2)
          \<longrightarrow> idx_sub remaining (length key + length (doc_bytes val) + 2) < 18446744073709551616
          \<longrightarrow> length (fields_bytes rest) + 5 < 2147483648
          \<longrightarrow> encode_fields rest
                (ptr_add (ptr_add current (length key + 2)) (length (doc_bytes val)))
                (idx_sub remaining (length key + length (doc_bytes val) + 2))
                (store (store mem current ?h) (ptr_add current (length key + 2)) (doc_bytes val))
              = Inr (store
                       (store (store mem current ?h) (ptr_add current (length key + 2))
                          (doc_bytes val))
                       (ptr_add (ptr_add current (length key + 2)) (length (doc_bytes val)))
                       (fields_bytes rest),
                     ptr_add (ptr_add (ptr_add current (length key + 2)) (length (doc_bytes val)))
                       (length (fields_bytes rest)),
                     idx_sub remaining (length key + length (doc_bytes val) + 2)
                       - length (fields_bytes rest))"
        using 3(9) [OF room JArr doc refl] sup by simp
      show ?thesis
        by (rule encode_step [OF u p r m ih fb fit m64 small])
    next
      case (JObj ms)
      let ?h = "element_header 0x03 key"
      let ?e = "?h @ doc_bytes val"
      have doc: "JSONToBSONDocument val (ptr_add current (length key + 2)) remaining
                   (store mem current ?h)
                 = Inr (store (store mem current ?h) (ptr_add current (length key + 2))
                          (doc_bytes val),
                        length (doc_bytes val))"
        using 3(10) [OF room JObj] JObj sup fit m64 small
        by (simp add: yyjson_obj_iter_def length_doc_bytes)
      have u: "encode_fields ((key, val) # rest) current remaining mem
               = encode_fields rest
                   (ptr_add (ptr_add current (length key + 2)) (length (doc_bytes val)))
                   (idx_sub remaining (length key + length (doc_bytes val) + 2))
                   (store (store mem current ?h) (ptr_add current (length key + 2))
                      (doc_bytes val))"
        using room JObj doc by simp
      have fb: "fields_bytes ((key, val) # rest) = ?e @ fields_bytes rest"
        using JObj by simp
      have le: "length ?e = length key + 2 + length (doc_bytes val)"
        by simp
      have p: "ptr_add (ptr_add current (length key + 2)) (length (doc_bytes val))
               = ptr_add current (length ?e)"
        unfolding le by (rule ptr_add_ptr_add)
      have r: "idx_sub remaining (length key + length (doc_bytes val) + 2)
               = remaining - length ?e"
        using fit m64 fb by (simp add: idx_sub_fits add.commute)
      have m: "store (store mem current ?h) (ptr_add current (length key + 2)) (doc_bytes val)
               = store mem current ?e"
        by (simp add: store_append)
      have ih: "length (fields_bytes rest) + 1
            \<le> idx_sub remaining (length key + length (doc_bytes val) + 2)
          \<longrightarrow> idx_sub remaining (length key + length (doc_bytes val) + 2) < 18446744073709551616
          \<longrightarrow> length (fields_bytes rest) + 5 < 2147483648
          \<longrightarrow> encode_fields rest
                (ptr_add (ptr_add current (length key + 2)) (length (doc_bytes val)))
                (idx_sub remaining (length key + length (doc_bytes val) + 2))
                (store (store mem current ?h) (ptr_add current (length key + 2)) (doc_bytes val))
              = Inr (store
                       (store (store mem current ?h) (ptr_add current (length key + 2))
                          (doc_bytes val))
                       (ptr_add (ptr_add current (length key + 2)) (length (doc_bytes val)))
                       (fields_bytes rest),
                     ptr_add (ptr_add (ptr_add current (length key + 2)) (length (doc_bytes val)))
                       (length (fields_bytes rest)),
                     idx_sub remaining (length key + length (doc_bytes val) + 2)
                       - length (fields_bytes rest))"
        using 3(11) [OF room JObj doc refl] sup by simp
      show ?thesis
        by (rule encode_step [OF u p r m ih fb fit m64 small])
    next
      case (JRaw raw)
      with sup show ?thesis by simp
    qed
  qed
qed

subsection \<open>The encoder returns whenever the encoding fits the capacity\<close>







lemma supported_members: "supported obj \<Longrightarrow> members_supported (yyjson_obj_iter obj)"
  by (cases obj) (simp_all add: yyjson_obj_iter_def)

lemmas encoder_defs =
  doc_bytes.simps yyjson_obj_iter_def element_header_def bytes_of_def
  fits_int32_def WriteBSONInt32_def WriteBSONInt64_def WriteBSONDouble_def WriteBSONBool_def
  WriteBSONString_def le32_def le64_def int32_of_idx_def

section \<open>The capacity that the cast gives the encoder\<close>



lemma length_doc_bytes_scalar:
  "yyjson_obj_iter v = [] \<Longrightarrow> length (doc_bytes v) = 5"
  by (simp add: length_doc_bytes)



text \<open>
  What the cast returns when the encoding fits its buffer and is shorter than \<open>2^31\<close>
  bytes: the encoding.
\<close>

lemma CastJSONToBSON_exact:
  assumes sup: "members_supported (yyjson_obj_iter root)"
    and root: "yyjson_is_obj root \<or> yyjson_is_arr root"
    and fit: "length (doc_bytes root) \<le> json_size * 2 + 1024"
    and m64: "json_size * 2 + 1024 < 18446744073709551616"
    and small: "length (doc_bytes root) < 2147483648"
  shows "CastJSONToBSON json_size (Some root) bson_data mem = Inr (doc_bytes root)"
proof -
  have enc: "JSONToBSONDocument root bson_data (json_size * 2 + 1024) mem
             = Inr (store mem bson_data (doc_bytes root), length (doc_bytes root))"
    using encode_exact(1) [of root "json_size * 2 + 1024" bson_data mem] sup fit m64 small
    by simp
  have ld: "load (store mem bson_data (doc_bytes root)) bson_data (length (doc_bytes root))
            = doc_bytes root"
    using small by (intro load_store) simp
  show ?thesis
    using root enc ld by (simp add: CastJSONToBSON_def Let_def)
qed

section \<open>Arrays\<close>

text \<open>
  C3 (the source does otherwise). The array case writes the tag 0x04 and the key and then
  calls JSONToBSONDocument on the array node, whose loop walks the node with the object
  iterator and derives no index keys; the loop body does not run. Every array, whatever its
  elements, is therefore encoded as the empty container \<^verbatim>\<open>05 00 00 00 00\<close>: for
  \<^verbatim>\<open>{"a": [1, 2]}\<close> the field \<^verbatim>\<open>a\<close> has tag 0x04 and no fields \<^verbatim>\<open>0\<close> and \<^verbatim>\<open>1\<close>.
\<close>

theorem array_encoded_as_empty_container:
  "JSONToBSONDocument (JArr elems) dest max_size mem =
     (if max_size < 5 then Inl BufferTooSmallDocument
      else Inr (store mem dest [0x05, 0x00, 0x00, 0x00, 0x00], 5))
   \<and> JSONToBSONDocument (JObj [(''a'', JArr [JSint 1, JSint 2])]) dest 1024 mem =
       Inr (store mem dest
              [0x0D, 0x00, 0x00, 0x00, 0x04, 0x61, 0x00, 0x05, 0x00, 0x00, 0x00, 0x00, 0x00],
            13)
   \<and> CastJSONToBSON 13 (Some (JObj [(''a'', JArr [JSint 1, JSint 2])])) bson_data mem =
       Inr [0x0D, 0x00, 0x00, 0x00, 0x04, 0x61, 0x00, 0x05, 0x00, 0x00, 0x00, 0x00, 0x00]
   \<and> \<not> fst (GetArrayElement [0x05, 0x00, 0x00, 0x00, 0x00] 5 0 result)"
proof -
  have root: "JSONToBSONDocument (JArr elems) dest max_size mem =
     (if max_size < 5 then Inl BufferTooSmallDocument
      else Inr (store mem dest [0x05, 0x00, 0x00, 0x00, 0x00], 5))"
  proof (cases "max_size < 5")
    case True
    then show ?thesis by (simp add: JSONToBSONDocument.simps(1))
  next
    case False
    have d: "ptr_diff (ptr_add dest 5) dest = 5"
      using ptr_diff_ptr_add [of 5 dest] by simp
    have l: "le32 (int32_of_idx 5) = [0x05, 0x00, 0x00, 0x00]"
      by (simp add: le32_def int32_of_idx_def)
    have r: "idx_of_int32 (int32_of_idx 5) = 5"
      by (simp add: idx_of_int32_def int32_of_idx_def)
    have four: "length [0x05, 0x00, 0x00, 0x00 :: byte] = 4"
      by simp
    have "store (store mem (ptr_add dest (length [0x05, 0x00, 0x00, 0x00 :: byte])) [0x00])
            dest [0x05, 0x00, 0x00, 0x00]
          = store mem dest ([0x05, 0x00, 0x00, 0x00] @ [0x00])"
      by (rule store_header) simp
    then have s: "store (store mem (ptr_add dest 4) [0x00]) dest [0x05, 0x00, 0x00, 0x00]
                  = store mem dest [0x05, 0x00, 0x00, 0x00, 0x00]"
      unfolding four by (simp only: append.simps)
    have "JSONToBSONDocument (JArr elems) dest max_size mem
          = Inr (store (store mem (ptr_add dest 4) [0x00]) dest (le32 (int32_of_idx 5)),
                 idx_of_int32 (int32_of_idx 5))"
      using False by (simp add: JSONToBSONDocument.simps(1) yyjson_obj_iter_def d Let_def
          del: store.simps)
    then show ?thesis
      using False unfolding l r s by simp
  qed
  have bytes: "doc_bytes (JObj [(''a'', JArr [JSint 1, JSint 2])])
       = [0x0D, 0x00, 0x00, 0x00, 0x04, 0x61, 0x00, 0x05, 0x00, 0x00, 0x00, 0x00, 0x00]"
    by (simp add: encoder_defs)
  have field: "JSONToBSONDocument (JObj [(''a'', JArr [JSint 1, JSint 2])]) dest 1024 mem =
       Inr (store mem dest
              [0x0D, 0x00, 0x00, 0x00, 0x04, 0x61, 0x00, 0x05, 0x00, 0x00, 0x00, 0x00, 0x00],
            13)"
    using encode_exact(1) [of "JObj [(''a'', JArr [JSint 1, JSint 2])]" 1024 dest mem]
    unfolding bytes by (simp add: yyjson_obj_iter_def del: store.simps)
  have cast: "CastJSONToBSON 13 (Some (JObj [(''a'', JArr [JSint 1, JSint 2])])) bson_data mem =
       Inr [0x0D, 0x00, 0x00, 0x00, 0x04, 0x61, 0x00, 0x05, 0x00, 0x00, 0x00, 0x00, 0x00]"
    using CastJSONToBSON_exact
      [of "JObj [(''a'', JArr [JSint 1, JSint 2])]" 13 bson_data mem]
    unfolding bytes by (simp add: yyjson_obj_iter_def yyjson_is_obj_def)
  have lookup: "\<not> fst (GetArrayElement [0x05, 0x00, 0x00, 0x00, 0x00] 5 0 result)"
    by (simp add: reader_defs to_string.simps)
  show ?thesis
    using root field cast lookup by blast
qed

section \<open>Integers\<close>

text \<open>
  The signed subtype: a value in the signed 32-bit range is written with the tag int32
  and four bytes, any other with the tag int64 and eight bytes.
\<close>

lemma signed_integer_boundary:
  "JSONToBSONDocument (JObj [(''a'', JSint 2147483647)]) dest 1024 mem =
     Inr (store mem dest
            [0x0C, 0x00, 0x00, 0x00, 0x10, 0x61, 0x00, 0xFF, 0xFF, 0xFF, 0x7F, 0x00],
          12)"
  "JSONToBSONDocument (JObj [(''a'', JSint 2147483648)]) dest 1024 mem =
     Inr (store mem dest
            [0x10, 0x00, 0x00, 0x00, 0x12, 0x61, 0x00,
             0x00, 0x00, 0x00, 0x80, 0x00, 0x00, 0x00, 0x00, 0x00],
          16)"
  "JSONToBSONDocument (JObj [(''a'', JSint (- 2147483648))]) dest 1024 mem =
     Inr (store mem dest
            [0x0C, 0x00, 0x00, 0x00, 0x10, 0x61, 0x00, 0x00, 0x00, 0x00, 0x80, 0x00],
          12)"
  "JSONToBSONDocument (JObj [(''a'', JSint (- 2147483649))]) dest 1024 mem =
     Inr (store mem dest
            [0x10, 0x00, 0x00, 0x00, 0x12, 0x61, 0x00,
             0xFF, 0xFF, 0xFF, 0x7F, 0xFF, 0xFF, 0xFF, 0xFF, 0x00],
          16)"
proof -
  have b0: "doc_bytes (JObj [(''a'', JSint 2147483647)]) =
            [0x0C, 0x00, 0x00, 0x00, 0x10, 0x61, 0x00, 0xFF, 0xFF, 0xFF, 0x7F, 0x00]"
    by (simp add: encoder_defs)
  show "JSONToBSONDocument (JObj [(''a'', JSint 2147483647)]) dest 1024 mem =
     Inr (store mem dest
            [0x0C, 0x00, 0x00, 0x00, 0x10, 0x61, 0x00, 0xFF, 0xFF, 0xFF, 0x7F, 0x00],
          12)"
    using encode_exact(1) [of "JObj [(''a'', JSint 2147483647)]" 1024 dest mem]
    unfolding b0 by (simp add: yyjson_obj_iter_def del: store.simps)
  have b1: "doc_bytes (JObj [(''a'', JSint 2147483648)]) =
            [0x10, 0x00, 0x00, 0x00, 0x12, 0x61, 0x00,
             0x00, 0x00, 0x00, 0x80, 0x00, 0x00, 0x00, 0x00, 0x00]"
    by (simp add: encoder_defs)
  show "JSONToBSONDocument (JObj [(''a'', JSint 2147483648)]) dest 1024 mem =
     Inr (store mem dest
            [0x10, 0x00, 0x00, 0x00, 0x12, 0x61, 0x00,
             0x00, 0x00, 0x00, 0x80, 0x00, 0x00, 0x00, 0x00, 0x00],
          16)"
    using encode_exact(1) [of "JObj [(''a'', JSint 2147483648)]" 1024 dest mem]
    unfolding b1 by (simp add: yyjson_obj_iter_def del: store.simps)
  have b2: "doc_bytes (JObj [(''a'', JSint (- 2147483648))]) =
            [0x0C, 0x00, 0x00, 0x00, 0x10, 0x61, 0x00, 0x00, 0x00, 0x00, 0x80, 0x00]"
    by (simp add: encoder_defs)
  show "JSONToBSONDocument (JObj [(''a'', JSint (- 2147483648))]) dest 1024 mem =
     Inr (store mem dest
            [0x0C, 0x00, 0x00, 0x00, 0x10, 0x61, 0x00, 0x00, 0x00, 0x00, 0x80, 0x00],
          12)"
    using encode_exact(1) [of "JObj [(''a'', JSint (- 2147483648))]" 1024 dest mem]
    unfolding b2 by (simp add: yyjson_obj_iter_def del: store.simps)
  have b3: "doc_bytes (JObj [(''a'', JSint (- 2147483649))]) =
            [0x10, 0x00, 0x00, 0x00, 0x12, 0x61, 0x00,
             0xFF, 0xFF, 0xFF, 0x7F, 0xFF, 0xFF, 0xFF, 0xFF, 0x00]"
    by (simp add: encoder_defs)
  show "JSONToBSONDocument (JObj [(''a'', JSint (- 2147483649))]) dest 1024 mem =
     Inr (store mem dest
            [0x10, 0x00, 0x00, 0x00, 0x12, 0x61, 0x00,
             0xFF, 0xFF, 0xFF, 0x7F, 0xFF, 0xFF, 0xFF, 0xFF, 0x00],
          16)"
    using encode_exact(1) [of "JObj [(''a'', JSint (- 2147483649))]" 1024 dest mem]
    unfolding b3 by (simp add: yyjson_obj_iter_def del: store.simps)
qed

text \<open>
  C4 (the source does otherwise for the unsigned subtype). The range test stands in the
  branch of the signed subtype only; the branch of the unsigned subtype writes the tag
  int64 and eight bytes for every value. The JSON library gives a non-negative integer
  literal the unsigned subtype, so the integers 2147483647, 1 and 0 are all written as
  int64, although they fit the signed 32-bit range.
\<close>

theorem unsigned_integer_always_int64:
  "encode_fields ((key, JUint num) # rest) current remaining mem =
     (if remaining < length key + 3 then Inl BufferTooSmallElement
      else encode_fields rest (ptr_add current (length key + 10))
             (idx_sub remaining (length key + 10))
             (store mem current (element_header INT64 key @ WriteBSONInt64 num)))
   \<and> JSONToBSONDocument (JObj [(''a'', JUint 2147483647)]) dest 1024 mem =
       Inr (store mem dest
              [0x10, 0x00, 0x00, 0x00, 0x12, 0x61, 0x00,
               0xFF, 0xFF, 0xFF, 0x7F, 0x00, 0x00, 0x00, 0x00, 0x00],
            16)
   \<and> JSONToBSONDocument (JObj [(''a'', JUint 1)]) dest 1024 mem =
       Inr (store mem dest
              [0x10, 0x00, 0x00, 0x00, 0x12, 0x61, 0x00,
               0x01, 0x00, 0x00, 0x00, 0x00, 0x00, 0x00, 0x00, 0x00],
            16)
   \<and> CastJSONToBSON 8 (Some (JObj [(''a'', JUint 1)])) bson_data mem =
       Inr [0x10, 0x00, 0x00, 0x00, 0x12, 0x61, 0x00,
            0x01, 0x00, 0x00, 0x00, 0x00, 0x00, 0x00, 0x00, 0x00]"
proof -
  have general: "encode_fields ((key, JUint num) # rest) current remaining mem =
     (if remaining < length key + 3 then Inl BufferTooSmallElement
      else encode_fields rest (ptr_add current (length key + 10))
             (idx_sub remaining (length key + 10))
             (store mem current (element_header INT64 key @ WriteBSONInt64 num)))"
    by simp
  have b1: "doc_bytes (JObj [(''a'', JUint 2147483647)]) =
              [0x10, 0x00, 0x00, 0x00, 0x12, 0x61, 0x00,
               0xFF, 0xFF, 0xFF, 0x7F, 0x00, 0x00, 0x00, 0x00, 0x00]"
    by (simp add: encoder_defs)
  have b2: "doc_bytes (JObj [(''a'', JUint 1)]) =
              [0x10, 0x00, 0x00, 0x00, 0x12, 0x61, 0x00,
               0x01, 0x00, 0x00, 0x00, 0x00, 0x00, 0x00, 0x00, 0x00]"
    by (simp add: encoder_defs)
  have big: "JSONToBSONDocument (JObj [(''a'', JUint 2147483647)]) dest 1024 mem =
       Inr (store mem dest
              [0x10, 0x00, 0x00, 0x00, 0x12, 0x61, 0x00,
               0xFF, 0xFF, 0xFF, 0x7F, 0x00, 0x00, 0x00, 0x00, 0x00],
            16)"
    using encode_exact(1) [of "JObj [(''a'', JUint 2147483647)]" 1024 dest mem]
    unfolding b1 by (simp add: yyjson_obj_iter_def del: store.simps)
  have one: "JSONToBSONDocument (JObj [(''a'', JUint 1)]) dest 1024 mem =
       Inr (store mem dest
              [0x10, 0x00, 0x00, 0x00, 0x12, 0x61, 0x00,
               0x01, 0x00, 0x00, 0x00, 0x00, 0x00, 0x00, 0x00, 0x00],
            16)"
    using encode_exact(1) [of "JObj [(''a'', JUint 1)]" 1024 dest mem]
    unfolding b2 by (simp add: yyjson_obj_iter_def del: store.simps)
  have cast: "CastJSONToBSON 8 (Some (JObj [(''a'', JUint 1)])) bson_data mem =
       Inr [0x10, 0x00, 0x00, 0x00, 0x12, 0x61, 0x00,
            0x01, 0x00, 0x00, 0x00, 0x00, 0x00, 0x00, 0x00, 0x00]"
    using CastJSONToBSON_exact [of "JObj [(''a'', JUint 1)]" 8 bson_data mem]
    unfolding b2 by (simp add: yyjson_obj_iter_def yyjson_is_obj_def)
  show ?thesis
    using general big one cast by blast
qed

section \<open>Buffer capacity\<close>

text \<open>
  JSONToBSONDocument checks the capacity in three places. The cast gives it a buffer of
  twice the length of the text and 1024 bytes, and the encoding of a tree is at most twice
  as long as a text of the tree and three bytes (\<open>doc_bound\<close>): no check can fail.
\<close>


lemma doc_bytes_john: "doc_bytes (JObj [(''name'', JStr ''John'')]) = doc_john"
  by (simp add: encoder_defs doc_john_def)


section \<open>Reading back what the encoder writes\<close>

text \<open>Keys without a NUL byte.\<close>

definition nul_free :: "string \<Rightarrow> bool" where
  "nul_free key = (CHR 0x00 \<notin> set key)"

text \<open>The tag and the value bytes that the encoder writes for a node.\<close>

definition value_tag :: "json \<Rightarrow> BSONType" where
  "value_tag val =
     (case val of
        JNull \<Rightarrow> NULL_VALUE
      | JBool b \<Rightarrow> BOOLEAN
      | JReal r \<Rightarrow> DOUBLE
      | JSint num \<Rightarrow> (if fits_int32 num then INT32 else INT64)
      | JUint num \<Rightarrow> INT64
      | JStr str \<Rightarrow> STRING
      | JArr elems \<Rightarrow> ARRAY
      | JObj members \<Rightarrow> DOCUMENT
      | JRaw raw \<Rightarrow> 0x00)"

definition value_bytes :: "json \<Rightarrow> byte list" where
  "value_bytes val =
     (case val of
        JNull \<Rightarrow> []
      | JBool b \<Rightarrow> WriteBSONBool b
      | JReal r \<Rightarrow> WriteBSONDouble r
      | JSint num \<Rightarrow> (if fits_int32 num then WriteBSONInt32 (sint num) else WriteBSONInt64 num)
      | JUint num \<Rightarrow> WriteBSONInt64 num
      | JStr str \<Rightarrow> WriteBSONString str
      | JArr elems \<Rightarrow> doc_bytes val
      | JObj members \<Rightarrow> doc_bytes val
      | JRaw raw \<Rightarrow> [])"

text \<open>The nodes whose value takes at least one byte: all but null (and the unsupported).\<close>

definition has_value :: "json \<Rightarrow> bool" where
  "has_value val = (case val of JNull \<Rightarrow> False | JRaw raw \<Rightarrow> False | _ \<Rightarrow> True)"

text \<open>The members that both loops can read: keys without NUL, values of at least a byte.\<close>

definition readable :: "(string \<times> json) list \<Rightarrow> bool" where
  "readable members = list_all (\<lambda>m. nul_free (fst m) \<and> has_value (snd m)) members"

text \<open>The element that a successful lookup of \<open>key\<close> returns for the node \<open>val\<close>.\<close>

definition element_of :: "string \<Rightarrow> json \<Rightarrow> BSONElement \<Rightarrow> bool" where
  "element_of key val e \<longleftrightarrow>
     etype e = value_tag val \<and> ekey_len e = length key
     \<and> take (length key) (ekey e) = bytes_of key
     \<and> evalue_len e = length (value_bytes val)
     \<and> take (length (value_bytes val)) (evalue e) = value_bytes val"

text \<open>
  The trees of the round trip: bool, number, string and mapping nodes at every level, and
  keys without a NUL byte. An unsigned integer is among them when it lies above the signed
  32-bit range and below \<open>2^63\<close>: a smaller one is written with the tag int64 where the
  specification asks for int32, and a larger one is written as the \<^verbatim>\<open>int64_t\<close> of the same
  bits, which is negative.
\<close>

fun round_trippable :: "json \<Rightarrow> bool" where
  "round_trippable (JBool b) = True"
| "round_trippable (JReal r) = True"
| "round_trippable (JSint num) = True"
| "round_trippable (JUint num) = (2147483647 < uint num \<and> uint num < 9223372036854775808)"
| "round_trippable (JStr str) = True"
| "round_trippable (JObj members) =
     list_all (\<lambda>m. nul_free (fst m) \<and> round_trippable (snd m)) members"
| "round_trippable v = False"

text \<open>
  An element matches a node: the tag is the one that the specification gives the node,
  and the value decodes to the node. An integer, signed or unsigned, has the tag int32
  when it lies in the signed 32-bit range (for an \<^verbatim>\<open>int64_t\<close> that is \<open>fits_int32\<close>) and the
  tag int64 otherwise, and it is decoded
  by \<^verbatim>\<open>ReadInt32\<close> or by \<^verbatim>\<open>ReadInt64\<close>, whose result is an \<^verbatim>\<open>int64_t\<close>; a real by
  \<^verbatim>\<open>ReadDouble\<close>; a string as \<^verbatim>\<open>bson_extract_string\<close> does; a mapping is entered as
  TraversePath does (the value pointer and the value length become the document), it must
  validate, and each of its keys must lead to an element that matches the first node
  under that key.
\<close>

fun node_matches :: "json \<Rightarrow> BSONElement \<Rightarrow> bool" where
  "node_matches (JBool b) e =
     (etype e = BOOLEAN \<and> evalue_len e = 1 \<and> evalue e ! 0 = (if b then 0x01 else 0x00))"
| "node_matches (JReal r) e =
     (etype e = DOUBLE \<and> evalue_len e = 8 \<and> ReadDouble (evalue e) = r)"
| "node_matches (JSint num) e =
     (if fits_int32 num
      then etype e = INT32 \<and> evalue_len e = 4 \<and> ReadInt32 (evalue e) = sint num
      else etype e = INT64 \<and> evalue_len e = 8 \<and> sint (ReadInt64 (evalue e)) = sint num)"
| "node_matches (JUint num) e =
     (if uint num \<le> 2147483647
      then etype e = INT32 \<and> evalue_len e = 4 \<and> ReadInt32 (evalue e) = uint num
      else etype e = INT64 \<and> evalue_len e = 8 \<and> sint (ReadInt64 (evalue e)) = uint num)"
| "node_matches (JStr str) e =
     (etype e = STRING \<and> evalue_len e = length str + 5
      \<and> ReadInt32 (evalue e) = int (length str) + 1
      \<and> take (nat (ReadInt32 (evalue e) - 1)) (drop 4 (evalue e)) = bytes_of str)"
| "node_matches (JObj members) e =
     (etype e = DOCUMENT \<and> ValidateDocument (evalue e) (evalue_len e)
      \<and> list_all
          (\<lambda>m. map_of members (fst m) = Some (snd m) \<longrightarrow>
             fst (FindElement (evalue e) (evalue_len e) (bytes_of (fst m)) e)
             \<and> node_matches (snd m)
                 (snd (FindElement (evalue e) (evalue_len e) (bytes_of (fst m)) e)))
          members)"
| "node_matches v e = False"

lemma mod256_eq: "(x::int) mod 256 = x - 256 * (x div 256)"
  by (simp add: minus_mult_div_eq_mod)

lemma bytes_sum32:
  fixes v :: int
  shows "v mod 256 + 256 * (v div 256 mod 256) + 65536 * (v div 65536 mod 256)
         + 16777216 * (v div 16777216 mod 256) = v mod 4294967296"
proof -
  define v1 where "v1 = v div 256"
  define v2 where "v2 = v1 div 256"
  define v3 where "v3 = v2 div 256"
  define v4 where "v4 = v3 div 256"
  have d2: "v div 65536 = v2"
    unfolding v2_def v1_def using zdiv_zmult2_eq [of 256 v 256] by simp
  have d3: "v div 16777216 = v3"
    unfolding v3_def using zdiv_zmult2_eq [of 256 v 65536] d2 by simp
  have d4: "v div 4294967296 = v4"
    unfolding v4_def using zdiv_zmult2_eq [of 256 v 16777216] d3 by simp
  have m0: "v mod 256 = v - 256 * v1" unfolding v1_def by (rule mod256_eq)
  have m1: "v1 mod 256 = v1 - 256 * v2" unfolding v2_def by (rule mod256_eq)
  have m2: "v2 mod 256 = v2 - 256 * v3" unfolding v3_def by (rule mod256_eq)
  have m3: "v3 mod 256 = v3 - 256 * v4" unfolding v4_def by (rule mod256_eq)
  have m: "v mod 4294967296 = v - 4294967296 * v4"
    unfolding d4 [symmetric] by (simp add: minus_mult_div_eq_mod)
  show ?thesis
    unfolding d2 d3 m v1_def [symmetric] m0 m1 m2 m3 by simp
qed

lemma uint_byte [simp]: "uint (word_of_int (x mod 256) :: byte) = x mod 256"
  by (simp add: uint_word_of_int take_bit_eq_mod)

lemma ReadInt32_le32:
  assumes "- 2147483648 \<le> v" and "v < 2147483648"
  shows "ReadInt32 (le32 v @ tail) = v"
proof -
  have r: "ReadInt32 (le32 v @ tail) =
      (let u = v mod 4294967296 in if u < 2147483648 then u else u - 4294967296)"
    by (simp add: ReadInt32_def le32_def nth_append bytes_sum32)
  show ?thesis
  proof (cases "0 \<le> v")
    case True
    then have "v mod 4294967296 = v" using assms by simp
    then show ?thesis using r assms by (simp add: Let_def)
  next
    case False
    then have "(v + 4294967296) mod 4294967296 = v + 4294967296"
      using assms by (intro mod_pos_pos_trivial) simp_all
    then have "v mod 4294967296 = v + 4294967296" by simp
    then show ?thesis using r assms False by (simp add: Let_def)
  qed
qed

lemma bytes_sum64:
  fixes v :: int
  shows "v mod 256 + 256 * (v div 256 mod 256) + 65536 * (v div 65536 mod 256)
         + 16777216 * (v div 16777216 mod 256) + 4294967296 * (v div 4294967296 mod 256)
         + 1099511627776 * (v div 1099511627776 mod 256)
         + 281474976710656 * (v div 281474976710656 mod 256)
         + 72057594037927936 * (v div 72057594037927936 mod 256)
         = v mod 18446744073709551616"
proof -
  define v1 where "v1 = v div 256"
  define v2 where "v2 = v1 div 256"
  define v3 where "v3 = v2 div 256"
  define v4 where "v4 = v3 div 256"
  define v5 where "v5 = v4 div 256"
  define v6 where "v6 = v5 div 256"
  define v7 where "v7 = v6 div 256"
  define v8 where "v8 = v7 div 256"
  have d2: "v div 65536 = v2"
    unfolding v2_def v1_def using zdiv_zmult2_eq [of 256 v 256] by simp
  have d3: "v div 16777216 = v3"
    unfolding v3_def using zdiv_zmult2_eq [of 256 v 65536] d2 by simp
  have d4: "v div 4294967296 = v4"
    unfolding v4_def using zdiv_zmult2_eq [of 256 v 16777216] d3 by simp
  have d5: "v div 1099511627776 = v5"
    unfolding v5_def using zdiv_zmult2_eq [of 256 v 4294967296] d4 by simp
  have d6: "v div 281474976710656 = v6"
    unfolding v6_def using zdiv_zmult2_eq [of 256 v 1099511627776] d5 by simp
  have d7: "v div 72057594037927936 = v7"
    unfolding v7_def using zdiv_zmult2_eq [of 256 v 281474976710656] d6 by simp
  have d8: "v div 18446744073709551616 = v8"
    unfolding v8_def using zdiv_zmult2_eq [of 256 v 72057594037927936] d7 by simp
  have m0: "v mod 256 = v - 256 * v1" unfolding v1_def by (rule mod256_eq)
  have m1: "v1 mod 256 = v1 - 256 * v2" unfolding v2_def by (rule mod256_eq)
  have m2: "v2 mod 256 = v2 - 256 * v3" unfolding v3_def by (rule mod256_eq)
  have m3: "v3 mod 256 = v3 - 256 * v4" unfolding v4_def by (rule mod256_eq)
  have m4: "v4 mod 256 = v4 - 256 * v5" unfolding v5_def by (rule mod256_eq)
  have m5: "v5 mod 256 = v5 - 256 * v6" unfolding v6_def by (rule mod256_eq)
  have m6: "v6 mod 256 = v6 - 256 * v7" unfolding v7_def by (rule mod256_eq)
  have m7: "v7 mod 256 = v7 - 256 * v8" unfolding v8_def by (rule mod256_eq)
  have m: "v mod 18446744073709551616 = v - 18446744073709551616 * v8"
    unfolding d8 [symmetric] by (simp add: minus_mult_div_eq_mod)
  show ?thesis
    unfolding d2 d3 d4 d5 d6 d7 m v1_def [symmetric] m0 m1 m2 m3 m4 m5 m6 m7 by simp
qed

lemma ReadInt64_le64: "ReadInt64 (le64 w @ tail) = w"
proof -
  have range: "0 \<le> uint w" "uint w < 18446744073709551616"
    using uint_bounded [of w] by simp_all
  have "ReadInt64 (le64 w @ tail) = word_of_int (uint w mod 18446744073709551616)"
    by (simp add: ReadInt64_def le64_def Let_def nth_append bytes_sum64)
  also have "uint w mod 18446744073709551616 = uint w"
    using range by simp
  finally show ?thesis by simp
qed

lemma byte_of_char_eq_iff: "(of_char c :: byte) = of_char d \<longleftrightarrow> c = d"
proof -
  have "(of_char c :: byte) = of_char d
        \<longleftrightarrow> (of_nat (of_char c) :: byte) = of_nat (of_char d)"
    by (simp only: of_nat_of_char)
  also have "\<dots> \<longleftrightarrow> take_bit 8 (of_char c :: nat) = take_bit 8 (of_char d :: nat)"
    by (simp add: word_of_nat_eq_iff)
  also have "\<dots> \<longleftrightarrow> (of_char c :: nat) = of_char d"
    by (simp add: take_bit_eq_mod)
  also have "\<dots> \<longleftrightarrow> c = d"
    by simp
  finally show ?thesis .
qed

lemma bytes_of_eq_iff: "bytes_of k = bytes_of k' \<longleftrightarrow> k = k'"
proof -
  have "inj (of_char :: char \<Rightarrow> byte)"
    by (rule injI) (simp add: byte_of_char_eq_iff)
  then show ?thesis
    by (simp add: bytes_of_def inj_map_eq_map)
qed

lemma of_char_eq_0_iff: "(of_char c :: byte) = 0 \<longleftrightarrow> c = CHR 0x00"
  using byte_of_char_eq_iff [of c "CHR 0x00"] by simp

lemma nul_free_bytes: "nul_free key \<Longrightarrow> 0 \<notin> set (bytes_of key)"
  by (auto simp: nul_free_def bytes_of_def of_char_eq_0_iff)

lemma scan_nul_run:
  "0 \<notin> set run \<Longrightarrow> length pre + length run < limit
   \<Longrightarrow> scan_nul (pre @ run @ 0 # tail) limit (length pre) = length pre + length run"
proof (induction run arbitrary: pre)
  case Nil
  then show ?case by (subst scan_nul.simps) simp
next
  case (Cons b run)
  have step: "scan_nul (pre @ (b # run) @ 0 # tail) limit (length pre)
        = scan_nul (pre @ (b # run) @ 0 # tail) limit (length pre + 1)"
    using Cons.prems by (subst scan_nul.simps) (auto simp: nth_append)
  have "scan_nul ((pre @ [b]) @ run @ 0 # tail) limit (length (pre @ [b]))
        = length (pre @ [b]) + length run"
    using Cons.prems by (intro Cons.IH) simp_all
  then show ?case using step by simp
qed

lemma length_bytes_of [simp]: "length (bytes_of s) = length s"
  by (simp add: bytes_of_def)

lemma fields_bytes_Cons:
  "has_value val \<Longrightarrow>
   fields_bytes ((key, val) # rest)
     = element_header (value_tag val) key @ value_bytes val @ fields_bytes rest"
  by (cases val) (auto simp: value_tag_def value_bytes_def has_value_def)

lemma doc_bytes_unfold:
  "doc_bytes obj = le32 (int (length (doc_bytes obj))) @ fields_bytes (yyjson_obj_iter obj) @ [0]"
  by (simp add: doc_bytes.simps Let_def)

lemma value_size:
  assumes "has_value val"
    and "length (value_bytes val) \<le> remaining"
    and "remaining < 2147483648"
  shows "GetValueSize (value_tag val) (value_bytes val @ tail) remaining
           = length (value_bytes val)"
    and "0 < length (value_bytes val)"
proof -
  have r32: "int32_of_idx remaining = int remaining"
    using assms(3) by (rule int32_of_idx_small)
  show "GetValueSize (value_tag val) (value_bytes val @ tail) remaining
           = length (value_bytes val)"
  proof (cases val)
    case JNull
    with assms show ?thesis by (simp add: has_value_def)
  next
    case (JBool b)
    with assms show ?thesis
      by (simp add: value_tag_def value_bytes_def GetValueSize_def WriteBSONBool_def)
  next
    case (JReal r)
    with assms show ?thesis
      by (simp add: value_tag_def value_bytes_def GetValueSize_def WriteBSONDouble_def)
  next
    case (JSint num)
    with assms show ?thesis
      by (cases "fits_int32 num")
         (simp_all add: value_tag_def value_bytes_def GetValueSize_def WriteBSONInt32_def
            WriteBSONInt64_def)
  next
    case (JUint num)
    with assms show ?thesis
      by (simp add: value_tag_def value_bytes_def GetValueSize_def WriteBSONInt64_def)
  next
    case (JStr str)
    have len: "length str + 5 \<le> remaining"
      using assms(2) JStr by (simp add: value_bytes_def)
    have small: "length str + 1 < 2147483648"
      using len assms(3) by simp
    have rd: "ReadInt32 (le32 (int (length str + 1)) @ bytes_of str @ 0 # tail)
                = int (length str + 1)"
      using small by (intro ReadInt32_le32) simp_all
    have n: "nat (5 + int (length str)) = 5 + length str"
      by simp
    show ?thesis
      using JStr len small rd r32 n
      by (simp add: value_tag_def value_bytes_def GetValueSize_def string_like_size_def
          WriteBSONString_def int32_of_idx_small Let_def)
  next
    case (JArr elems)
    let ?n = "length (doc_bytes val)"
    have len: "?n \<le> remaining" using assms(2) JArr by (simp add: value_bytes_def)
    have rd: "ReadInt32 (le32 (int ?n) @ fields_bytes (yyjson_obj_iter val) @ 0 # tail) = int ?n"
      using len assms(3) by (intro ReadInt32_le32) simp_all
    have rd': "ReadInt32 (doc_bytes val @ tail) = int ?n"
      using rd by (subst doc_bytes_unfold) simp
    have ge5: "5 \<le> ?n" by (simp add: length_doc_bytes)
    show ?thesis
      using JArr len rd' r32 ge5
      by (simp add: value_tag_def value_bytes_def GetValueSize_def Let_def)
  next
    case (JObj ms)
    let ?n = "length (doc_bytes val)"
    have len: "?n \<le> remaining" using assms(2) JObj by (simp add: value_bytes_def)
    have rd: "ReadInt32 (le32 (int ?n) @ fields_bytes (yyjson_obj_iter val) @ 0 # tail) = int ?n"
      using len assms(3) by (intro ReadInt32_le32) simp_all
    have rd': "ReadInt32 (doc_bytes val @ tail) = int ?n"
      using rd by (subst doc_bytes_unfold) simp
    have ge5: "5 \<le> ?n" by (simp add: length_doc_bytes)
    show ?thesis
      using JObj len rd' r32 ge5
      by (simp add: value_tag_def value_bytes_def GetValueSize_def Let_def)
  next
    case (JRaw raw)
    with assms show ?thesis by (simp add: has_value_def)
  qed
  show "0 < length (value_bytes val)"
    using assms(1)
    by (cases val)
       (auto simp: has_value_def value_bytes_def WriteBSONBool_def WriteBSONDouble_def
          WriteBSONInt32_def WriteBSONInt64_def WriteBSONString_def doc_bytes.simps
          le32_def le64_def Let_def)
qed

text \<open>
  One element written by the encoder, as the two scanning loops read it: the bytes
  \<open>pre\<close> come before it, the bytes \<open>after\<close> behind it.
\<close>

lemma element_read:
  assumes "nul_free key" and "has_value val"
    and data: "data = pre @ element_header (value_tag val) key @ value_bytes val @ after"
    and room: "length pre + length key + 2 + length (value_bytes val) < doc_len"
    and small: "doc_len < 2147483648"
  shows "data ! length pre = value_tag val"
    and "scan_nul data doc_len (length pre + 1) = length pre + 1 + length key"
    and "drop (length pre + 1) data = bytes_of key @ 0 # value_bytes val @ after"
    and "drop (length pre + length key + 2) data = value_bytes val @ after"
    and "GetValueSize (value_tag val) (value_bytes val @ after)
           (doc_len - (length pre + length key + 2)) = length (value_bytes val)"
    and "0 < length (value_bytes val)"
proof -
  show "data ! length pre = value_tag val"
    by (simp add: data element_header_def nth_append)
  have split: "data = (pre @ [value_tag val]) @ bytes_of key @ 0 # (value_bytes val @ after)"
    by (simp add: data element_header_def)
  have "scan_nul ((pre @ [value_tag val]) @ bytes_of key @ 0 # (value_bytes val @ after))
          doc_len (length (pre @ [value_tag val]))
        = length (pre @ [value_tag val]) + length (bytes_of key)"
    using assms(1) room by (intro scan_nul_run nul_free_bytes) simp_all
  then show "scan_nul data doc_len (length pre + 1) = length pre + 1 + length key"
    unfolding split [symmetric] by simp
  show "drop (length pre + 1) data = bytes_of key @ 0 # value_bytes val @ after"
    by (simp add: data element_header_def)
  show "drop (length pre + length key + 2) data = value_bytes val @ after"
    by (simp add: data element_header_def)
  show "GetValueSize (value_tag val) (value_bytes val @ after)
           (doc_len - (length pre + length key + 2)) = length (value_bytes val)"
    using assms(2) room small by (intro value_size(1)) simp_all
  show "0 < length (value_bytes val)"
    using assms(2) room small
    by (intro value_size(2) [where remaining = "doc_len - (length pre + length key + 2)"])
       simp_all
qed

text \<open>One pass through the body of each loop, for an element that is read in full.\<close>

lemma all_fields_written:
  "(result :: BSONElement)\<lparr>etype := t, ekey := k, ekey_len := kl, evalue := v, evalue_len := vl\<rparr>
     = \<lparr>etype = t, ekey = k, ekey_len = kl, evalue = v, evalue_len = vl\<rparr>"
  by (cases result) simp

lemma validate_loop_iter:
  assumes "pos < doc_len - Suc 0" and "pos < dsize"
    and "scan_nul data doc_len (Suc pos) = pos2" and "pos2 < doc_len"
    and "GetValueSize (data ! pos) (drop (Suc pos2) data) (doc_len - Suc pos2) = vs"
    and "0 < vs" and "vs \<le> doc_len - Suc pos2"
  shows "validate_loop data dsize doc_len pos = validate_loop data dsize doc_len (Suc pos2 + vs)"
  using assms by (subst validate_loop.simps) (simp add: Let_def)

lemma find_loop_iter:
  assumes "pos < doc_len - Suc 0"
    and "scan_nul data doc_len (Suc pos) = pos2" and "pos2 < doc_len"
    and "GetValueSize (data ! pos) (drop (Suc pos2) data) (doc_len - Suc pos2) = vs"
    and "0 < vs" and "vs \<le> doc_len - Suc pos2"
  shows "find_loop data doc_len k pos result =
     (if pos2 - Suc pos = length k \<and> take (length k) (drop (Suc pos) data) = k
      then (True, \<lparr>etype = data ! pos, ekey = drop (Suc pos) data, ekey_len = pos2 - Suc pos,
                   evalue = drop (Suc pos2) data, evalue_len = vs\<rparr>)
      else find_loop data doc_len k (Suc pos2 + vs)
             \<lparr>etype = data ! pos, ekey = drop (Suc pos) data, ekey_len = pos2 - Suc pos,
              evalue = drop (Suc pos2) data, evalue_len = vs\<rparr>)"
  using assms by (subst find_loop.simps) (simp add: Let_def all_fields_written)

lemma validate_loop_step:
  assumes "nul_free key" and "has_value val"
    and data: "data = pre @ element_header (value_tag val) key @ value_bytes val @ after"
    and room: "length pre + length key + 2 + length (value_bytes val) < doc_len"
    and small: "doc_len < 2147483648"
    and fits: "doc_len \<le> dsize"
  shows "validate_loop data dsize doc_len (length pre)
         = validate_loop data dsize doc_len
             (length pre + length key + 2 + length (value_bytes val))"
proof -
  note rd = element_read [OF assms(1-5)]
  let ?pos2 = "Suc (length pre + length key)"
  have "validate_loop data dsize doc_len (length pre)
        = validate_loop data dsize doc_len (Suc ?pos2 + length (value_bytes val))"
  proof (rule validate_loop_iter)
    show "length pre < doc_len - Suc 0" using room by simp
    show "length pre < dsize" using room fits by simp
    show "scan_nul data doc_len (Suc (length pre)) = ?pos2" using rd(2) by simp
    show "?pos2 < doc_len" using room by simp
    show "GetValueSize (data ! length pre) (drop (Suc ?pos2) data) (doc_len - Suc ?pos2)
            = length (value_bytes val)"
      using rd(1) rd(4) rd(5) by simp
    show "0 < length (value_bytes val)" by (rule rd(6))
    show "length (value_bytes val) \<le> doc_len - Suc ?pos2" using room by simp
  qed
  then show ?thesis by simp
qed

lemma find_loop_step:
  assumes "nul_free key" and "has_value val"
    and data: "data = pre @ element_header (value_tag val) key @ value_bytes val @ after"
    and room: "length pre + length key + 2 + length (value_bytes val) < doc_len"
    and small: "doc_len < 2147483648"
  shows "find_loop data doc_len k (length pre) result =
     (if bytes_of key = k
      then (True, \<lparr>etype = value_tag val, ekey = bytes_of key @ 0 # value_bytes val @ after,
                   ekey_len = length key, evalue = value_bytes val @ after,
                   evalue_len = length (value_bytes val)\<rparr>)
      else find_loop data doc_len k
             (length pre + length key + 2 + length (value_bytes val))
             \<lparr>etype = value_tag val, ekey = bytes_of key @ 0 # value_bytes val @ after,
              ekey_len = length key, evalue = value_bytes val @ after,
              evalue_len = length (value_bytes val)\<rparr>)"
proof -
  note rd = element_read [OF assms(1-5)]
  let ?pos2 = "Suc (length pre + length key)"
  have dk: "drop (Suc (length pre)) data = bytes_of key @ 0 # value_bytes val @ after"
    using rd(3) by simp
  have dv: "drop (Suc ?pos2) data = value_bytes val @ after"
    using rd(4) by simp
  have cmp: "(length key = length k
              \<and> take (length k) (bytes_of key @ 0 # value_bytes val @ after) = k)
             \<longleftrightarrow> bytes_of key = k"
    by (auto simp: bytes_of_def)
  have kl: "?pos2 - Suc (length pre) = length key"
    by simp
  have "find_loop data doc_len k (length pre) result =
     (if ?pos2 - Suc (length pre) = length k
         \<and> take (length k) (drop (Suc (length pre)) data) = k
      then (True, \<lparr>etype = data ! length pre, ekey = drop (Suc (length pre)) data,
                   ekey_len = ?pos2 - Suc (length pre),
                   evalue = drop (Suc ?pos2) data, evalue_len = length (value_bytes val)\<rparr>)
      else find_loop data doc_len k (Suc ?pos2 + length (value_bytes val))
             \<lparr>etype = data ! length pre, ekey = drop (Suc (length pre)) data,
              ekey_len = ?pos2 - Suc (length pre),
              evalue = drop (Suc ?pos2) data, evalue_len = length (value_bytes val)\<rparr>)"
  proof (rule find_loop_iter)
    show "length pre < doc_len - Suc 0" using room by simp
    show "scan_nul data doc_len (Suc (length pre)) = ?pos2" using rd(2) by simp
    show "?pos2 < doc_len" using room by simp
    show "GetValueSize (data ! length pre) (drop (Suc ?pos2) data) (doc_len - Suc ?pos2)
            = length (value_bytes val)"
      using rd(1) rd(4) rd(5) by simp
    show "0 < length (value_bytes val)" by (rule rd(6))
    show "length (value_bytes val) \<le> doc_len - Suc ?pos2" using room by simp
  qed
  then show ?thesis
    unfolding dk dv rd(1) kl cmp by simp
qed

lemma readable_Cons [simp]:
  "readable ((key, val) # rest) \<longleftrightarrow> nul_free key \<and> has_value val \<and> readable rest"
  by (simp add: readable_def)

lemma validate_loop_fields:
  assumes "readable members"
    and "doc_len = length pre + length (fields_bytes members) + 1"
    and "doc_len < 2147483648" and "doc_len \<le> dsize"
  shows "validate_loop (pre @ fields_bytes members @ 0 # tail) dsize doc_len (length pre)"
  using assms
proof (induction members arbitrary: pre)
  case Nil
  then show ?case by (subst validate_loop.simps) simp
next
  case (Cons m rest)
  obtain key val where m: "m = (key, val)" by (cases m)
  from Cons.prems m have nf: "nul_free key" and hv: "has_value val" and rr: "readable rest"
    by simp_all
  let ?elem = "element_header (value_tag val) key @ value_bytes val"
  let ?data = "pre @ fields_bytes (m # rest) @ 0 # tail"
  have fb: "fields_bytes (m # rest) = ?elem @ fields_bytes rest"
    using fields_bytes_Cons [OF hv] m by (simp del: fields_bytes.simps)
  have data: "?data = pre @ element_header (value_tag val) key @ value_bytes val
                        @ (fields_bytes rest @ 0 # tail)"
    by (simp add: fb)
  have room: "length pre + length key + 2 + length (value_bytes val) < doc_len"
    using Cons.prems(2) by (simp add: fb)
  have step: "validate_loop ?data dsize doc_len (length pre)
              = validate_loop ?data dsize doc_len
                  (length pre + length key + 2 + length (value_bytes val))"
    using nf hv data room Cons.prems(3) Cons.prems(4) by (rule validate_loop_step)
  have "validate_loop ((pre @ ?elem) @ fields_bytes rest @ 0 # tail) dsize doc_len
          (length (pre @ ?elem))"
    using rr Cons.prems(2-4) by (intro Cons.IH) (simp_all add: fb)
  then show ?case
    using step by (simp add: fb add.assoc)
qed

lemma find_loop_fields:
  assumes "readable members"
    and "doc_len = length pre + length (fields_bytes members) + 1"
    and "doc_len < 2147483648"
  shows "(case map_of members key of
            Some val \<Rightarrow>
              fst (find_loop (pre @ fields_bytes members @ last_byte # tail) doc_len (bytes_of key)
                     (length pre) result)
              \<and> element_of key val
                    (snd (find_loop (pre @ fields_bytes members @ last_byte # tail) doc_len
                            (bytes_of key) (length pre) result))
          | None \<Rightarrow>
              \<not> fst (find_loop (pre @ fields_bytes members @ last_byte # tail) doc_len (bytes_of key)
                       (length pre) result))"
  using assms
proof (induction members arbitrary: pre result)
  case Nil
  then show ?case by (subst find_loop.simps) simp
next
  case (Cons m rest)
  obtain k val where m: "m = (k, val)" by (cases m)
  from Cons.prems m have nf: "nul_free k" and hv: "has_value val" and rr: "readable rest"
    by simp_all
  let ?elem = "element_header (value_tag val) k @ value_bytes val"
  let ?data = "pre @ fields_bytes (m # rest) @ last_byte # tail"
  let ?found = "\<lparr>etype = value_tag val,
                  ekey = bytes_of k @ 0 # value_bytes val @ fields_bytes rest @ last_byte # tail,
                  ekey_len = length k, evalue = value_bytes val @ fields_bytes rest @ last_byte # tail,
                  evalue_len = length (value_bytes val)\<rparr>"
  have fb: "fields_bytes (m # rest) = ?elem @ fields_bytes rest"
    using fields_bytes_Cons [OF hv] m by (simp del: fields_bytes.simps)
  have data: "?data = pre @ element_header (value_tag val) k @ value_bytes val
                        @ (fields_bytes rest @ last_byte # tail)"
    by (simp add: fb)
  have room: "length pre + length k + 2 + length (value_bytes val) < doc_len"
    using Cons.prems(2) by (simp add: fb)
  have step: "find_loop ?data doc_len (bytes_of key) (length pre) result =
     (if bytes_of k = bytes_of key then (True, ?found)
      else find_loop ?data doc_len (bytes_of key)
             (length pre + length k + 2 + length (value_bytes val)) ?found)"
    using find_loop_step [OF nf hv data room Cons.prems(3), of "bytes_of key" result]
    by simp
  show ?case
  proof (cases "k = key")
    case True
    then have "find_loop ?data doc_len (bytes_of key) (length pre) result = (True, ?found)"
      using step by simp
    then show ?thesis
      using True m by (simp add: element_of_def)
  next
    case False
    then have ne: "bytes_of k \<noteq> bytes_of key"
      by (simp add: bytes_of_eq_iff)
    have next_pos: "length pre + length k + 2 + length (value_bytes val) = length (pre @ ?elem)"
      by simp
    have skip: "find_loop ?data doc_len (bytes_of key) (length pre) result
        = find_loop ((pre @ ?elem) @ fields_bytes rest @ last_byte # tail) doc_len (bytes_of key)
            (length (pre @ ?elem)) ?found"
      unfolding step next_pos using ne by (simp add: fb)
    have mo: "map_of (m # rest) key = map_of rest key"
      using False m by simp
    have ih: "(case map_of rest key of
            Some val \<Rightarrow>
              fst (find_loop ((pre @ ?elem) @ fields_bytes rest @ last_byte # tail) doc_len
                     (bytes_of key) (length (pre @ ?elem)) ?found)
              \<and> element_of key val
                    (snd (find_loop ((pre @ ?elem) @ fields_bytes rest @ last_byte # tail) doc_len
                            (bytes_of key) (length (pre @ ?elem)) ?found))
          | None \<Rightarrow>
              \<not> fst (find_loop ((pre @ ?elem) @ fields_bytes rest @ last_byte # tail) doc_len
                       (bytes_of key) (length (pre @ ?elem)) ?found))"
      using rr Cons.prems(2,3) by (intro Cons.IH) (simp_all add: fb)
    show ?thesis
      unfolding mo skip by (rule ih)
  qed
qed

lemma ReadInt32_doc_bytes:
  assumes "length (doc_bytes obj) < 2147483648"
  shows "ReadInt32 (doc_bytes obj @ tail) = int (length (doc_bytes obj))"
proof -
  let ?n = "length (doc_bytes obj)"
  have "ReadInt32 (le32 (int ?n) @ fields_bytes (yyjson_obj_iter obj) @ 0 # tail) = int ?n"
    using assms by (intro ReadInt32_le32) simp_all
  then show ?thesis
    by (subst doc_bytes_unfold) simp
qed

lemma doc_bytes_layout:
  "doc_bytes obj @ tail
     = le32 (int (length (doc_bytes obj))) @ fields_bytes (yyjson_obj_iter obj) @ 0 # tail"
  by (subst doc_bytes_unfold) simp

lemma ValidateDocument_doc_bytes:
  assumes "readable (yyjson_obj_iter obj)"
    and small: "length (doc_bytes obj) < 2147483648"
    and fits: "length (doc_bytes obj) \<le> dsize"
  shows "ValidateDocument (doc_bytes obj @ tail) dsize"
proof -
  let ?n = "length (doc_bytes obj)"
  let ?body = "fields_bytes (yyjson_obj_iter obj)"
  have n: "?n = length ?body + 5" by (rule length_doc_bytes)
  have ge5: "5 \<le> ?n" by (simp add: n)
  have rd: "ReadInt32 (doc_bytes obj @ tail) = int ?n"
    using small by (rule ReadInt32_doc_bytes)
  have lay: "doc_bytes obj @ tail = le32 (int ?n) @ ?body @ 0 # tail"
    by (rule doc_bytes_layout)
  have "(le32 (int ?n) @ ?body @ 0 # tail) ! (?n - 1) = 0"
    by (simp add: n nth_append)
  then have last0: "(doc_bytes obj @ tail) ! (?n - 1) = 0"
    by (simp only: lay [symmetric])
  have "validate_loop (le32 (int ?n) @ ?body @ 0 # tail) dsize ?n (length (le32 (int ?n)))"
    using assms by (intro validate_loop_fields) (simp_all add: n)
  then have "validate_loop (le32 (int ?n) @ ?body @ 0 # tail) dsize ?n 4"
    by simp
  then have loop: "validate_loop (doc_bytes obj @ tail) dsize ?n 4"
    by (simp only: lay [symmetric])
  show ?thesis
    unfolding ValidateDocument_def rd using ge5 fits last0 loop by (simp add: Let_def)
qed

text \<open>
  The lookup in an encoded document whose final byte is any byte at all: the loop ends
  when it reaches the position of that byte and never tests it.
\<close>

lemma FindElement_layout:
  assumes "readable members"
    and n: "n = length (fields_bytes members) + 5"
    and small: "n < 2147483648"
    and fits: "n \<le> dsize"
  shows "(case map_of members key of
            Some val \<Rightarrow>
              fst (FindElement (le32 (int n) @ fields_bytes members @ last_byte # tail) dsize
                     (bytes_of key) result)
              \<and> element_of key val
                    (snd (FindElement (le32 (int n) @ fields_bytes members @ last_byte # tail)
                            dsize (bytes_of key) result))
          | None \<Rightarrow>
              \<not> fst (FindElement (le32 (int n) @ fields_bytes members @ last_byte # tail) dsize
                       (bytes_of key) result))"
proof -
  let ?data = "le32 (int n) @ fields_bytes members @ last_byte # tail"
  have ge5: "5 \<le> n" by (simp add: n)
  have rd: "ReadInt32 ?data = int n"
    using small by (intro ReadInt32_le32) simp_all
  have fe: "FindElement ?data dsize (bytes_of key) result
        = find_loop ?data n (bytes_of key) 4 result"
    unfolding FindElement_def rd using ge5 fits by (simp add: Let_def)
  have four: "length (le32 (int n)) = 4" by simp
  have loop: "(case map_of members key of
            Some val \<Rightarrow>
              fst (find_loop ?data n (bytes_of key) (length (le32 (int n))) result)
              \<and> element_of key val
                    (snd (find_loop ?data n (bytes_of key) (length (le32 (int n))) result))
          | None \<Rightarrow>
              \<not> fst (find_loop ?data n (bytes_of key) (length (le32 (int n))) result))"
    using assms(1) small by (intro find_loop_fields) (simp_all add: n)
  show ?thesis
    unfolding fe using loop unfolding four .
qed

lemma FindElement_doc_bytes:
  assumes "readable (yyjson_obj_iter obj)"
    and small: "length (doc_bytes obj) < 2147483648"
    and fits: "length (doc_bytes obj) \<le> dsize"
  shows "(case map_of (yyjson_obj_iter obj) key of
            Some val \<Rightarrow>
              fst (FindElement (doc_bytes obj @ tail) dsize (bytes_of key) result)
              \<and> element_of key val
                    (snd (FindElement (doc_bytes obj @ tail) dsize (bytes_of key) result))
          | None \<Rightarrow>
              \<not> fst (FindElement (doc_bytes obj @ tail) dsize (bytes_of key) result))"
  unfolding doc_bytes_layout
  using assms by (intro FindElement_layout) (simp_all add: length_doc_bytes)

lemma sint_eq_uint_small:
  "uint (w :: 64 word) < 9223372036854775808 \<Longrightarrow> sint w = uint w"
proof -
  assume a: "uint w < 9223372036854775808"
  have "sint w = signed_take_bit 63 (uint w)"
    by (simp add: sint_uint)
  also have "\<dots> = uint w"
  proof (rule signed_take_bit_int_eq_self)
    show "- (2 ^ 63) \<le> uint w"
      by (rule order_trans [where y = 0]) simp_all
    show "uint w < 2 ^ 63" using a by simp
  qed
  finally show ?thesis .
qed

lemma round_trippable_has_value: "round_trippable val \<Longrightarrow> has_value val"
  by (cases val) (simp_all add: has_value_def)

lemma round_trippable_readable: "round_trippable (JObj members) \<Longrightarrow> readable members"
  by (auto simp: readable_def list_all_iff round_trippable_has_value)

lemma value_bytes_le_fields:
  "readable members \<Longrightarrow> (key, val) \<in> set members
   \<Longrightarrow> length (value_bytes val) \<le> length (fields_bytes members)"
proof (induction members)
  case Nil
  then show ?case by simp
next
  case (Cons m rest)
  obtain k v where m: "m = (k, v)" by (cases m)
  from Cons.prems m have hv: "has_value v" and rr: "readable rest" by simp_all
  have fb: "fields_bytes (m # rest)
              = element_header (value_tag v) k @ value_bytes v @ fields_bytes rest"
    using fields_bytes_Cons [OF hv] m by (simp del: fields_bytes.simps)
  show ?case
  proof (cases "(key, val) = m")
    case True
    then show ?thesis using m fb by simp
  next
    case False
    then have "(key, val) \<in> set rest" using Cons.prems(2) by simp
    then have "length (value_bytes val) \<le> length (fields_bytes rest)"
      using rr by (intro Cons.IH)
    then show ?thesis using fb by simp
  qed
qed

lemma take_eq_append:
  assumes "take (length xs) ys = xs"
  shows "\<exists>tail. ys = xs @ tail"
proof
  show "ys = xs @ drop (length xs) ys"
    using append_take_drop_id [of "length xs" ys] assms by simp
qed

lemma node_matches_element:
  "round_trippable val \<Longrightarrow> length (value_bytes val) < 2147483648
   \<Longrightarrow> etype e = value_tag val \<Longrightarrow> evalue_len e = length (value_bytes val)
   \<Longrightarrow> take (length (value_bytes val)) (evalue e) = value_bytes val
   \<Longrightarrow> node_matches val e"
proof (induction val arbitrary: e)
  case JNull
  then show ?case by simp
next
  case (JBool b)
  obtain tail where ev: "evalue e = value_bytes (JBool b) @ tail"
    using take_eq_append [OF JBool.prems(5)] by blast
  show ?case
    using JBool.prems(3,4) ev
    by (simp add: value_tag_def value_bytes_def WriteBSONBool_def)
next
  case (JReal r)
  obtain tail where ev: "evalue e = value_bytes (JReal r) @ tail"
    using take_eq_append [OF JReal.prems(5)] by blast
  show ?case
    using JReal.prems(3,4) ev
    by (simp add: value_tag_def value_bytes_def WriteBSONDouble_def ReadDouble_def
        ReadInt64_le64)
next
  case (JSint num)
  obtain tail where ev: "evalue e = value_bytes (JSint num) @ tail"
    using take_eq_append [OF JSint.prems(5)] by blast
  show ?case
  proof (cases "fits_int32 num")
    case True
    then have "ReadInt32 (le32 (sint num) @ tail) = sint num"
      by (intro ReadInt32_le32) (simp_all add: fits_int32_def)
    then show ?thesis
      using True JSint.prems(3,4) ev
      by (simp add: value_tag_def value_bytes_def WriteBSONInt32_def)
  next
    case False
    have "sint (ReadInt64 (le64 num @ tail)) = sint num"
      by (simp only: ReadInt64_le64)
    then show ?thesis
      using False JSint.prems(3,4) ev
      by (simp add: value_tag_def value_bytes_def WriteBSONInt64_def)
  qed
next
  case (JUint num)
  obtain tail where ev: "evalue e = value_bytes (JUint num) @ tail"
    using take_eq_append [OF JUint.prems(5)] by blast
  have big: "\<not> uint num \<le> 2147483647" and pos: "uint num < 9223372036854775808"
    using JUint.prems(1) by simp_all
  have "sint (ReadInt64 (le64 num @ tail)) = sint num"
    by (simp only: ReadInt64_le64)
  also have "\<dots> = uint num"
    using pos by (rule sint_eq_uint_small)
  finally have "sint (ReadInt64 (le64 num @ tail)) = uint num" .
  then show ?case
    using big JUint.prems(3,4) ev
    by (simp add: value_tag_def value_bytes_def WriteBSONInt64_def)
next
  case (JStr str)
  obtain tail where ev: "evalue e = value_bytes (JStr str) @ tail"
    using take_eq_append [OF JStr.prems(5)] by blast
  have small: "length str + 5 < 2147483648"
    using JStr.prems(2) by (simp add: value_bytes_def)
  have rd: "ReadInt32 (le32 (int (length str + 1)) @ bytes_of str @ 0 # tail)
              = int (length str + 1)"
    using small by (intro ReadInt32_le32) simp_all
  show ?case
    using JStr.prems(3,4) ev small rd
    by (simp add: value_tag_def value_bytes_def WriteBSONString_def int32_of_idx_small)
next
  case (JArr elems)
  then show ?case by simp
next
  case (JObj members)
  let ?val = "JObj members"
  let ?n = "length (doc_bytes ?val)"
  have vb: "value_bytes ?val = doc_bytes ?val" by (simp add: value_bytes_def)
  obtain tail where ev: "evalue e = doc_bytes ?val @ tail"
    using take_eq_append [OF JObj.prems(5)] unfolding vb by blast
  have len: "evalue_len e = ?n" using JObj.prems(4) vb by simp
  have small: "?n < 2147483648" using JObj.prems(2) vb by simp
  have it: "yyjson_obj_iter ?val = members" by (simp add: yyjson_obj_iter_def)
  have rd: "readable members" using JObj.prems(1) by (rule round_trippable_readable)
  have valid: "ValidateDocument (evalue e) (evalue_len e)"
    unfolding ev len using rd small by (intro ValidateDocument_doc_bytes) (simp_all add: it)
  have each: "fst (FindElement (evalue e) (evalue_len e) (bytes_of k) e)
              \<and> node_matches v (snd (FindElement (evalue e) (evalue_len e) (bytes_of k) e))"
    if mem: "(k, v) \<in> set members" and first: "map_of members k = Some v" for k v
  proof -
    let ?r = "FindElement (doc_bytes ?val @ tail) ?n (bytes_of k) e"
    have "(case map_of (yyjson_obj_iter ?val) k of
            Some val \<Rightarrow> fst ?r \<and> element_of k val (snd ?r)
          | None \<Rightarrow> \<not> fst ?r)"
      using rd small by (intro FindElement_doc_bytes) (simp_all add: it)
    then have found: "fst ?r" and el: "element_of k v (snd ?r)"
      using first by (simp_all add: it)
    have rt: "round_trippable v"
      using JObj.prems(1) mem by (auto simp: list_all_iff)
    have "length (value_bytes v) \<le> length (fields_bytes members)"
      using rd mem by (rule value_bytes_le_fields)
    then have vsmall: "length (value_bytes v) < 2147483648"
      using small by (simp add: length_doc_bytes it)
    have "node_matches v (snd ?r)"
      using mem rt vsmall el
      by (intro JObj.IH [of "(k, v)" v]) (simp_all add: element_of_def)
    then show ?thesis
      using found unfolding ev len by simp
  qed
  show ?case
    using JObj.prems(3) valid each
    by (auto simp: value_tag_def list_all_iff)
next
  case (JRaw raw)
  then show ?case by simp
qed

section \<open>The round trip\<close>

text \<open>
  The claim C2 as stated fails in six ways. A null node: \<^verbatim>\<open>{"a": null}\<close> is encoded as
  \<open>doc_null_field\<close>, which does not validate. An array root: \<^verbatim>\<open>[true]\<close> is encoded as the
  empty document, in which the key \<^verbatim>\<open>0\<close> is not found. A key with a NUL byte: the key
  is copied whole into the NUL-terminated key field and the document does not validate.
  A repeated key: both entries are written, and the lookup returns the first, which does
  not match the second entry's node. An unsigned integer in the signed 32-bit range:
  \<^verbatim>\<open>{"a": 1}\<close> is written with the tag int64, not int32. An unsigned integer above
  \<open>2^63 - 1\<close>: the element of \<^verbatim>\<open>{"a": 18446744073709551615}\<close> decodes to \<open>-1\<close>. The first
  argument of the cast is the length of the text shown.
\<close>

theorem round_trip_fails:
  "CastJSONToBSON 11 (Some (JObj [(''a'', JNull)])) 0 (\<lambda>a. 0)
       = Inr doc_null_field
   \<and> \<not> ValidateDocument doc_null_field 8
   \<and> CastJSONToBSON 6 (Some (JArr [JBool True])) 0 (\<lambda>a. 0)
       = Inr doc_empty
   \<and> \<not> fst (FindElement doc_empty 5 (bytes_of ''0'') blank_element)
   \<and> CastJSONToBSON 18 (Some (JObj [([CHR ''a'', CHR 0x00, CHR ''b''], JBool True)])) 0 (\<lambda>a. 0)
       = Inr [0x0B, 0x00, 0x00, 0x00, 0x08, 0x61, 0x00, 0x62, 0x00, 0x01, 0x00]
   \<and> \<not> ValidateDocument [0x0B, 0x00, 0x00, 0x00, 0x08, 0x61, 0x00, 0x62, 0x00, 0x01, 0x00] 11
   \<and> CastJSONToBSON 23 (Some (JObj [(''a'', JBool True), (''a'', JBool False)])) 0 (\<lambda>a. 0)
       = Inr [0x0D, 0x00, 0x00, 0x00, 0x08, 0x61, 0x00, 0x01, 0x08, 0x61, 0x00, 0x00, 0x00]
   \<and> \<not> node_matches (JBool False)
         (snd (FindElement
                 [0x0D, 0x00, 0x00, 0x00, 0x08, 0x61, 0x00, 0x01, 0x08, 0x61, 0x00, 0x00, 0x00]
                 13 (bytes_of ''a'') blank_element))
   \<and> CastJSONToBSON 8 (Some (JObj [(''a'', JUint 1)])) 0 (\<lambda>a. 0)
       = Inr [0x10, 0x00, 0x00, 0x00, 0x12, 0x61, 0x00,
            0x01, 0x00, 0x00, 0x00, 0x00, 0x00, 0x00, 0x00, 0x00]
   \<and> \<not> node_matches (JUint 1)
         (snd (FindElement
                 [0x10, 0x00, 0x00, 0x00, 0x12, 0x61, 0x00,
                  0x01, 0x00, 0x00, 0x00, 0x00, 0x00, 0x00, 0x00, 0x00]
                 16 (bytes_of ''a'') blank_element))
   \<and> CastJSONToBSON 27 (Some (JObj [(''a'', JUint 18446744073709551615)])) 0 (\<lambda>a. 0)
       = Inr [0x10, 0x00, 0x00, 0x00, 0x12, 0x61, 0x00,
            0xFF, 0xFF, 0xFF, 0xFF, 0xFF, 0xFF, 0xFF, 0xFF, 0x00]
   \<and> \<not> node_matches (JUint 18446744073709551615)
         (snd (FindElement
                 [0x10, 0x00, 0x00, 0x00, 0x12, 0x61, 0x00,
                  0xFF, 0xFF, 0xFF, 0xFF, 0xFF, 0xFF, 0xFF, 0xFF, 0x00]
                 16 (bytes_of ''a'') blank_element))
   \<and> sint (ReadInt64 (evalue (snd (FindElement
                 [0x10, 0x00, 0x00, 0x00, 0x12, 0x61, 0x00,
                  0xFF, 0xFF, 0xFF, 0xFF, 0xFF, 0xFF, 0xFF, 0xFF, 0x00]
                 16 (bytes_of ''a'') blank_element)))) = - 1"
proof -
  have a0: "doc_bytes (JObj [(''a'', JNull)])
       = doc_null_field"
    by (simp add: encoder_defs doc_null_field_def)
  have a1: "CastJSONToBSON 11 (Some (JObj [(''a'', JNull)])) 0 (\<lambda>a. 0)
       = Inr doc_null_field"
    using CastJSONToBSON_exact [of "JObj [(''a'', JNull)]" 11 0 "\<lambda>a. 0"]
    unfolding a0 by (simp add: yyjson_obj_iter_def yyjson_is_obj_def doc_null_field_def)
  have a2: "\<not> ValidateDocument doc_null_field 8"
    by (simp add: reader_defs doc_null_field_def)
  have b0: "doc_bytes (JArr [JBool True])
       = doc_empty"
    by (simp add: encoder_defs doc_empty_def)
  have b1: "CastJSONToBSON 6 (Some (JArr [JBool True])) 0 (\<lambda>a. 0)
       = Inr doc_empty"
    using CastJSONToBSON_exact [of "JArr [JBool True]" 6 0 "\<lambda>a. 0"]
    unfolding b0 by (simp add: yyjson_obj_iter_def yyjson_is_arr_def doc_empty_def)
  have b2: "\<not> fst (FindElement doc_empty 5 (bytes_of ''0'') blank_element)"
    by (simp add: reader_defs doc_empty_def)
  have c0: "doc_bytes (JObj [([CHR ''a'', CHR 0x00, CHR ''b''], JBool True)])
       = [0x0B, 0x00, 0x00, 0x00, 0x08, 0x61, 0x00, 0x62, 0x00, 0x01, 0x00]"
    by (simp add: encoder_defs)
  have c1: "CastJSONToBSON 18 (Some (JObj [([CHR ''a'', CHR 0x00, CHR ''b''], JBool True)])) 0 (\<lambda>a. 0)
       = Inr [0x0B, 0x00, 0x00, 0x00, 0x08, 0x61, 0x00, 0x62, 0x00, 0x01, 0x00]"
    using CastJSONToBSON_exact [of "JObj [([CHR ''a'', CHR 0x00, CHR ''b''], JBool True)]" 18 0 "\<lambda>a. 0"]
    unfolding c0 by (simp add: yyjson_obj_iter_def yyjson_is_obj_def)
  have c2: "\<not> ValidateDocument [0x0B, 0x00, 0x00, 0x00, 0x08, 0x61, 0x00, 0x62, 0x00, 0x01, 0x00] 11"
    by (simp add: reader_defs)
  have d0: "doc_bytes (JObj [(''a'', JBool True), (''a'', JBool False)])
       = [0x0D, 0x00, 0x00, 0x00, 0x08, 0x61, 0x00, 0x01, 0x08, 0x61, 0x00, 0x00, 0x00]"
    by (simp add: encoder_defs)
  have d1: "CastJSONToBSON 23 (Some (JObj [(''a'', JBool True), (''a'', JBool False)])) 0 (\<lambda>a. 0)
       = Inr [0x0D, 0x00, 0x00, 0x00, 0x08, 0x61, 0x00, 0x01, 0x08, 0x61, 0x00, 0x00, 0x00]"
    using CastJSONToBSON_exact [of "JObj [(''a'', JBool True), (''a'', JBool False)]" 23 0 "\<lambda>a. 0"]
    unfolding d0 by (simp add: yyjson_obj_iter_def yyjson_is_obj_def)
  have d2: "\<not> node_matches (JBool False)
         (snd (FindElement
                 [0x0D, 0x00, 0x00, 0x00, 0x08, 0x61, 0x00, 0x01, 0x08, 0x61, 0x00, 0x00, 0x00]
                 13 (bytes_of ''a'') blank_element))"
    by (simp add: reader_defs)
  have e0: "doc_bytes (JObj [(''a'', JUint 1)])
       = [0x10, 0x00, 0x00, 0x00, 0x12, 0x61, 0x00,
            0x01, 0x00, 0x00, 0x00, 0x00, 0x00, 0x00, 0x00, 0x00]"
    by (simp add: encoder_defs)
  have e1: "CastJSONToBSON 8 (Some (JObj [(''a'', JUint 1)])) 0 (\<lambda>a. 0)
       = Inr [0x10, 0x00, 0x00, 0x00, 0x12, 0x61, 0x00,
            0x01, 0x00, 0x00, 0x00, 0x00, 0x00, 0x00, 0x00, 0x00]"
    using CastJSONToBSON_exact [of "JObj [(''a'', JUint 1)]" 8 0 "\<lambda>a. 0"]
    unfolding e0 by (simp add: yyjson_obj_iter_def yyjson_is_obj_def)
  have e2: "\<not> node_matches (JUint 1)
         (snd (FindElement
                 [0x10, 0x00, 0x00, 0x00, 0x12, 0x61, 0x00,
                  0x01, 0x00, 0x00, 0x00, 0x00, 0x00, 0x00, 0x00, 0x00]
                 16 (bytes_of ''a'') blank_element))"
    by (simp add: reader_defs)
  have f0: "doc_bytes (JObj [(''a'', JUint 18446744073709551615)])
       = [0x10, 0x00, 0x00, 0x00, 0x12, 0x61, 0x00,
            0xFF, 0xFF, 0xFF, 0xFF, 0xFF, 0xFF, 0xFF, 0xFF, 0x00]"
    by (simp add: encoder_defs)
  have f1: "CastJSONToBSON 27 (Some (JObj [(''a'', JUint 18446744073709551615)])) 0 (\<lambda>a. 0)
       = Inr [0x10, 0x00, 0x00, 0x00, 0x12, 0x61, 0x00,
            0xFF, 0xFF, 0xFF, 0xFF, 0xFF, 0xFF, 0xFF, 0xFF, 0x00]"
    using CastJSONToBSON_exact [of "JObj [(''a'', JUint 18446744073709551615)]" 27 0 "\<lambda>a. 0"]
    unfolding f0 by (simp add: yyjson_obj_iter_def yyjson_is_obj_def)
  have f2: "\<not> node_matches (JUint 18446744073709551615)
         (snd (FindElement
                 [0x10, 0x00, 0x00, 0x00, 0x12, 0x61, 0x00,
                  0xFF, 0xFF, 0xFF, 0xFF, 0xFF, 0xFF, 0xFF, 0xFF, 0x00]
                 16 (bytes_of ''a'') blank_element))"
    by (simp add: reader_defs ReadInt64_def)
  have f3: "sint (ReadInt64 (evalue (snd (FindElement
                 [0x10, 0x00, 0x00, 0x00, 0x12, 0x61, 0x00,
                  0xFF, 0xFF, 0xFF, 0xFF, 0xFF, 0xFF, 0xFF, 0xFF, 0x00]
                 16 (bytes_of ''a'') blank_element)))) = - 1"
    by (simp add: reader_defs ReadInt64_def)
  show ?thesis
    using a1 a2 b1 b2 c1 c2 d1 d2 e1 e2 f1 f2 f3 by blast
qed

lemma round_trippable_supported: "round_trippable v \<Longrightarrow> supported v"
proof (induction v)
  case (JObj members)
  have "supported (snd m)" if m: "m \<in> set members" for m
  proof -
    obtain key val where kv: "m = (key, val)" by (cases m)
    have "round_trippable val"
      using JObj.prems m kv by (auto simp: list_all_iff)
    then have "supported val"
      using m kv by (intro JObj.IH [of m val]) simp_all
    then show ?thesis using kv by simp
  qed
  then show ?case by (simp add: list_all_iff)
qed simp_all

text \<open>
  C2, amended. For every tree whose root is a mapping, whose nodes at every level are
  bool, number, string or mapping nodes (an unsigned integer only above the signed 32-bit
  range and below \<open>2^63\<close>), whose keys contain no NUL byte, and whose encoding is shorter
  than \<open>2^31\<close> bytes and no longer than the buffer of the cast (\<open>json_size * 2 + 1024\<close>
  bytes, which \<open>doc_bound\<close> shows to hold the encoding whenever \<open>json_size\<close> is the length
  of a text of the tree): the cast returns a buffer, the buffer validates, locating a key
  of the root yields an element that matches the first node under that key (tag and
  decoded value, mappings entered recursively), and locating a string that is no key of
  the root fails.
\<close>

theorem encode_round_trip:
  "round_trippable (JObj members) \<and> length (doc_bytes (JObj members)) < 2147483648
     \<and> length (doc_bytes (JObj members)) \<le> json_size * 2 + 1024
     \<and> json_size * 2 + 1024 < 18446744073709551616
   \<longrightarrow> (\<exists>doc. CastJSONToBSON json_size (Some (JObj members)) bson_data mem = Inr doc
          \<and> ValidateDocument doc (length doc)
          \<and> (\<forall>key val. map_of members key = Some val \<longrightarrow>
                fst (FindElement doc (length doc) (bytes_of key) result)
                \<and> node_matches val (snd (FindElement doc (length doc) (bytes_of key) result)))
          \<and> (\<forall>key. map_of members key = None \<longrightarrow>
                \<not> fst (FindElement doc (length doc) (bytes_of key) result)))"
proof (intro impI, elim conjE)
  let ?obj = "JObj members"
  let ?doc = "doc_bytes ?obj"
  assume rt: "round_trippable ?obj"
    and small: "length ?doc < 2147483648"
    and fit: "length ?doc \<le> json_size * 2 + 1024"
    and m64: "json_size * 2 + 1024 < 18446744073709551616"
  have it: "yyjson_obj_iter ?obj = members" by (simp add: yyjson_obj_iter_def)
  have rd: "readable members" using rt by (rule round_trippable_readable)
  have valid: "ValidateDocument (?doc @ []) (length ?doc)"
    using rd small by (intro ValidateDocument_doc_bytes) (simp_all add: it)
  have look: "(case map_of members key of
            Some val \<Rightarrow>
              fst (FindElement (?doc @ []) (length ?doc) (bytes_of key) result)
              \<and> element_of key val
                    (snd (FindElement (?doc @ []) (length ?doc) (bytes_of key) result))
          | None \<Rightarrow>
              \<not> fst (FindElement (?doc @ []) (length ?doc) (bytes_of key) result))" for key
    using FindElement_doc_bytes
      [where obj = ?obj and dsize = "length ?doc" and key = key and tail = "[]"
         and result = result] rd small
    by (simp add: it)
  have hit: "fst (FindElement ?doc (length ?doc) (bytes_of key) result)
             \<and> node_matches val (snd (FindElement ?doc (length ?doc) (bytes_of key) result))"
    if first: "map_of members key = Some val" for key val
  proof -
    let ?r = "FindElement ?doc (length ?doc) (bytes_of key) result"
    have found: "fst ?r" and el: "element_of key val (snd ?r)"
      using look [of key] first by simp_all
    have mem: "(key, val) \<in> set members" using first by (rule map_of_SomeD)
    have rtv: "round_trippable val" using rt mem by (auto simp: list_all_iff)
    have "length (value_bytes val) \<le> length (fields_bytes members)"
      using rd mem by (rule value_bytes_le_fields)
    then have vsmall: "length (value_bytes val) < 2147483648"
      using small by (simp add: length_doc_bytes it)
    have "node_matches val (snd ?r)"
      using rtv vsmall el by (intro node_matches_element) (simp_all add: element_of_def)
    then show ?thesis using found by simp
  qed
  have miss: "\<not> fst (FindElement ?doc (length ?doc) (bytes_of key) result)"
    if "map_of members key = None" for key
    using look [of key] that by simp
  have msup: "members_supported (yyjson_obj_iter ?obj)"
    using rt by (intro supported_members round_trippable_supported)
  have root: "yyjson_is_obj ?obj \<or> yyjson_is_arr ?obj"
    by (simp add: yyjson_is_obj_def)
  have cast: "CastJSONToBSON json_size (Some ?obj) bson_data mem = Inr ?doc"
    using msup root fit m64 small by (rule CastJSONToBSON_exact)
  show "\<exists>doc. CastJSONToBSON json_size (Some ?obj) bson_data mem = Inr doc
          \<and> ValidateDocument doc (length doc)
          \<and> (\<forall>key val. map_of members key = Some val \<longrightarrow>
                fst (FindElement doc (length doc) (bytes_of key) result)
                \<and> node_matches val (snd (FindElement doc (length doc) (bytes_of key) result)))
          \<and> (\<forall>key. map_of members key = None \<longrightarrow>
                \<not> fst (FindElement doc (length doc) (bytes_of key) result))"
  proof (intro exI [of _ ?doc] conjI allI impI)
    show "CastJSONToBSON json_size (Some ?obj) bson_data mem = Inr ?doc"
      by (rule cast)
    show "ValidateDocument ?doc (length ?doc)"
      using valid by simp
  next
    fix key val assume "map_of members key = Some val"
    then show "fst (FindElement ?doc (length ?doc) (bytes_of key) result)"
      and "node_matches val (snd (FindElement ?doc (length ?doc) (bytes_of key) result))"
      using hit by simp_all
  next
    fix key assume "map_of members key = None"
    then show "\<not> fst (FindElement ?doc (length ?doc) (bytes_of key) result)"
      by (rule miss)
  qed
qed

theorem encode_round_trip_witness:
  "round_trippable (JObj [(''name'', JStr ''John'')])
   \<and> length (doc_bytes (JObj [(''name'', JStr ''John'')])) < 2147483648
   \<and> length (doc_bytes (JObj [(''name'', JStr ''John'')])) \<le> 16 * 2 + 1024
   \<and> CastJSONToBSON 16 (Some (JObj [(''name'', JStr ''John'')])) 0 (\<lambda>a. 0) = Inr doc_john
   \<and> ValidateDocument doc_john 20
   \<and> map_of [(''name'', JStr ''John'')] ''name'' = Some (JStr ''John'')
   \<and> fst (FindElement doc_john 20 (bytes_of ''name'') blank_element)
   \<and> node_matches (JStr ''John'')
        (snd (FindElement doc_john 20 (bytes_of ''name'') blank_element))
   \<and> map_of [(''name'', JStr ''John'')] ''missing'' = None
   \<and> \<not> fst (FindElement doc_john 20 (bytes_of ''missing'') blank_element)"
proof -
  have rt: "round_trippable (JObj [(''name'', JStr ''John'')])"
    by (simp add: nul_free_def)
  have len: "length doc_john = 20"
    by (simp add: doc_john_def)
  have l1: "length (doc_bytes (JObj [(''name'', JStr ''John'')])) < 2147483648"
    and l2: "length (doc_bytes (JObj [(''name'', JStr ''John'')])) \<le> 16 * 2 + 1024"
    unfolding doc_bytes_john len by simp_all
  have c: "CastJSONToBSON 16 (Some (JObj [(''name'', JStr ''John'')])) 0 (\<lambda>a. 0)
           = Inr doc_john"
    using CastJSONToBSON_exact [of "JObj [(''name'', JStr ''John'')]" 16 0 "\<lambda>a. 0"]
    unfolding doc_bytes_john len by (simp add: yyjson_obj_iter_def yyjson_is_obj_def)
  have m1: "map_of [(''name'', JStr ''John'')] ''name'' = Some (JStr ''John'')"
    by simp
  have m2: "map_of [(''name'', JStr ''John'')] ''missing'' = None"
    by simp
  note w = encode_round_trip
    [of "[(''name'', JStr ''John'')]" 16 0 "\<lambda>a. 0" blank_element]
  from w rt l1 l2 have
    "\<exists>doc. CastJSONToBSON 16 (Some (JObj [(''name'', JStr ''John'')])) 0 (\<lambda>a. 0) = Inr doc
       \<and> ValidateDocument doc (length doc)
       \<and> (\<forall>key val. map_of [(''name'', JStr ''John'')] key = Some val \<longrightarrow>
             fst (FindElement doc (length doc) (bytes_of key) blank_element)
             \<and> node_matches val
                  (snd (FindElement doc (length doc) (bytes_of key) blank_element)))
       \<and> (\<forall>key. map_of [(''name'', JStr ''John'')] key = None \<longrightarrow>
             \<not> fst (FindElement doc (length doc) (bytes_of key) blank_element))"
    by simp
  then have
    "ValidateDocument doc_john (length doc_john)
     \<and> (\<forall>key val. map_of [(''name'', JStr ''John'')] key = Some val \<longrightarrow>
           fst (FindElement doc_john (length doc_john) (bytes_of key) blank_element)
           \<and> node_matches val
                (snd (FindElement doc_john (length doc_john) (bytes_of key) blank_element)))
     \<and> (\<forall>key. map_of [(''name'', JStr ''John'')] key = None \<longrightarrow>
           \<not> fst (FindElement doc_john (length doc_john) (bytes_of key) blank_element))"
    unfolding c by blast
  then show ?thesis
    using m1 m2 rt l1 l2 c unfolding len by blast
qed

section \<open>The locator does not check the terminator\<close>

lemma butlast_doc_bytes:
  "butlast (doc_bytes obj)
     = le32 (int (length (doc_bytes obj))) @ fields_bytes (yyjson_obj_iter obj)"
proof -
  have "butlast (doc_bytes obj)
        = butlast ((le32 (int (length (doc_bytes obj))) @ fields_bytes (yyjson_obj_iter obj))
                   @ [0])"
    by (subst doc_bytes_unfold) simp
  then show ?thesis
    by (simp only: butlast_snoc)
qed

text \<open>
  C10. FindElement reads the declared length and scans the elements, and has no test of
  the byte at offset \<open>declared_length - 1\<close>. Take the encoding of any mapping that the
  loops can read and put any nonzero byte in place of its final byte: the validator
  answers false, and the lookup of every key still returns the element of the first
  node under that key. The 20 bytes of \<open>doc_john_bad_terminator\<close> (declared length 20,
  final byte 1) are such a buffer: not valid, and the lookup of \<^verbatim>\<open>name\<close> returns the
  string element.
\<close>

theorem find_element_ignores_terminator:
  "(readable members \<and> length (doc_bytes (JObj members)) < 2147483648 \<and> last_byte \<noteq> 0
     \<longrightarrow> \<not> ValidateDocument (butlast (doc_bytes (JObj members)) @ [last_byte])
              (length (doc_bytes (JObj members)))
         \<and> (\<forall>key val. map_of members key = Some val \<longrightarrow>
               fst (FindElement (butlast (doc_bytes (JObj members)) @ [last_byte])
                      (length (doc_bytes (JObj members))) (bytes_of key) result)
               \<and> element_of key val
                     (snd (FindElement (butlast (doc_bytes (JObj members)) @ [last_byte])
                             (length (doc_bytes (JObj members))) (bytes_of key) result))))
   \<and> ReadInt32 doc_john_bad_terminator = 20
   \<and> doc_john_bad_terminator ! (nat (ReadInt32 doc_john_bad_terminator) - 1) \<noteq> 0
   \<and> \<not> ValidateDocument doc_john_bad_terminator 20
   \<and> FindElement doc_john_bad_terminator 20 (bytes_of ''name'') result =
       (True, \<lparr>etype = STRING, ekey = drop 5 doc_john_bad_terminator, ekey_len = 4,
               evalue = drop 10 doc_john_bad_terminator, evalue_len = 9\<rparr>)"
proof -
  have general:
    "\<not> ValidateDocument (butlast (doc_bytes (JObj members)) @ [last_byte])
              (length (doc_bytes (JObj members)))
     \<and> (\<forall>key val. map_of members key = Some val \<longrightarrow>
           fst (FindElement (butlast (doc_bytes (JObj members)) @ [last_byte])
                  (length (doc_bytes (JObj members))) (bytes_of key) result)
           \<and> element_of key val
                 (snd (FindElement (butlast (doc_bytes (JObj members)) @ [last_byte])
                         (length (doc_bytes (JObj members))) (bytes_of key) result)))"
    if rd: "readable members" and small: "length (doc_bytes (JObj members)) < 2147483648"
      and nz: "last_byte \<noteq> 0"
  proof -
    let ?obj = "JObj members"
    let ?n = "length (doc_bytes ?obj)"
    let ?bad = "le32 (int ?n) @ fields_bytes members @ last_byte # []"
    have it: "yyjson_obj_iter ?obj = members" by (simp add: yyjson_obj_iter_def)
    have n: "?n = length (fields_bytes members) + 5"
      using length_doc_bytes [of ?obj] by (simp add: it)
    have bad: "butlast (doc_bytes ?obj) @ [last_byte] = ?bad"
      by (simp add: butlast_doc_bytes it)
    have rd32: "ReadInt32 ?bad = int ?n"
      using small by (intro ReadInt32_le32) simp_all
    have final: "?bad ! (?n - 1) = last_byte"
      by (simp add: n nth_append)
    have invalid: "\<not> ValidateDocument ?bad ?n"
      unfolding ValidateDocument_def rd32 using final nz by (simp add: Let_def)
    have look: "(case map_of members key of
            Some val \<Rightarrow>
              fst (FindElement ?bad ?n (bytes_of key) result)
              \<and> element_of key val (snd (FindElement ?bad ?n (bytes_of key) result))
          | None \<Rightarrow> \<not> fst (FindElement ?bad ?n (bytes_of key) result))" for key
      using rd n small by (intro FindElement_layout) simp_all
    have hit: "fst (FindElement ?bad ?n (bytes_of key) result)
               \<and> element_of key val (snd (FindElement ?bad ?n (bytes_of key) result))"
      if "map_of members key = Some val" for key val
      using look [of key] that by simp
    show ?thesis
      unfolding bad using invalid hit by blast
  qed
  have len: "ReadInt32 doc_john_bad_terminator = 20"
    by (simp add: doc_john_bad_terminator_def ReadInt32_def)
  have last_byte: "doc_john_bad_terminator ! (nat (ReadInt32 doc_john_bad_terminator) - 1) \<noteq> 0"
    unfolding len by (simp add: doc_john_bad_terminator_def)
  have invalid: "\<not> ValidateDocument doc_john_bad_terminator 20"
    by (simp add: doc_john_bad_terminator_def reader_defs)
  have found: "FindElement doc_john_bad_terminator 20 (bytes_of ''name'') result =
       (True, \<lparr>etype = STRING, ekey = drop 5 doc_john_bad_terminator, ekey_len = 4,
               evalue = drop 10 doc_john_bad_terminator, evalue_len = 9\<rparr>)"
    by (simp add: doc_john_bad_terminator_def reader_defs)
  show ?thesis
    using general len last_byte invalid found by blast
qed

theorem find_element_ignores_terminator_witness:
  "readable [(''name'', JStr ''John'')]
   \<and> length (doc_bytes (JObj [(''name'', JStr ''John'')])) < 2147483648
   \<and> (1 :: byte) \<noteq> 0
   \<and> butlast (doc_bytes (JObj [(''name'', JStr ''John'')])) @ [1] = doc_john_bad_terminator
   \<and> length (doc_bytes (JObj [(''name'', JStr ''John'')])) = 20
   \<and> \<not> ValidateDocument doc_john_bad_terminator 20
   \<and> map_of [(''name'', JStr ''John'')] ''name'' = Some (JStr ''John'')
   \<and> fst (FindElement doc_john_bad_terminator 20 (bytes_of ''name'') blank_element)
   \<and> element_of ''name'' (JStr ''John'')
        (snd (FindElement doc_john_bad_terminator 20 (bytes_of ''name'') blank_element))"
proof -
  have rd: "readable [(''name'', JStr ''John'')]"
    by (simp add: readable_def nul_free_def has_value_def)
  have len: "length (doc_bytes (JObj [(''name'', JStr ''John'')])) = 20"
    by (simp add: doc_bytes_john doc_john_def)
  have bad: "butlast (doc_bytes (JObj [(''name'', JStr ''John'')])) @ [1]
               = doc_john_bad_terminator"
    by (simp add: doc_bytes_john doc_john_def doc_john_bad_terminator_def)
  have m: "map_of [(''name'', JStr ''John'')] ''name'' = Some (JStr ''John'')"
    by simp
  have nz: "(1 :: byte) \<noteq> 0" by simp
  note w = find_element_ignores_terminator
    [of "[(''name'', JStr ''John'')]" 1 blank_element]
  from w rd len nz have
    "\<not> ValidateDocument (butlast (doc_bytes (JObj [(''name'', JStr ''John'')])) @ [1])
          (length (doc_bytes (JObj [(''name'', JStr ''John'')])))
     \<and> (\<forall>key val. map_of [(''name'', JStr ''John'')] key = Some val \<longrightarrow>
           fst (FindElement (butlast (doc_bytes (JObj [(''name'', JStr ''John'')])) @ [1])
                  (length (doc_bytes (JObj [(''name'', JStr ''John'')]))) (bytes_of key)
                  blank_element)
           \<and> element_of key val
                 (snd (FindElement
                         (butlast (doc_bytes (JObj [(''name'', JStr ''John'')])) @ [1])
                         (length (doc_bytes (JObj [(''name'', JStr ''John'')])))
                         (bytes_of key) blank_element)))"
    by simp
  then have found:
    "\<not> ValidateDocument doc_john_bad_terminator 20
     \<and> fst (FindElement doc_john_bad_terminator 20 (bytes_of ''name'') blank_element)
     \<and> element_of ''name'' (JStr ''John'')
          (snd (FindElement doc_john_bad_terminator 20 (bytes_of ''name'') blank_element))"
    using m unfolding bad len by blast
  show ?thesis
    unfolding bad len using rd found by simp
qed

end
